theory Spec2Isabelle
  imports Main "HOL-Library.Word"
begin

section \<open>Data model of pa3.c\<close>

text \<open>
  The file \<^verbatim>\<open>pa3.c\<close> implements four operations of a simulated MMU over four
  globals: the ready list \<^verbatim>\<open>processes\<close>, the running process \<^verbatim>\<open>current\<close>, the
  page table base register \<^verbatim>\<open>ptbr\<close> and the per-frame counters \<^verbatim>\<open>mapcounts\<close>.
  The headers \<^verbatim>\<open>vm.h\<close>, \<^verbatim>\<open>types.h\<close> and \<^verbatim>\<open>list_head.h\<close> are not part of the
  sources at hand. Their constants are parameters of the model (record \<open>config\<close>), their
  struct layouts follow the field accesses of \<^verbatim>\<open>pa3.c\<close> and the data model of the
  specification, and the behaviour of the list macros is modelled from the specification,
  each in a definition marked as such. \<^verbatim>\<open>malloc\<close> is the allocator of the C library:
  the storage it returns has indeterminate contents, and \<^verbatim>\<open>pa3.c\<close> does not initialise
  what it allocates, so these contents are a parameter of every operation that allocates
  (record \<open>junk\<close>).

  Undefined behaviour of the C program (a null or dangling pointer dereferenced, an
  array indexed out of range) is a value of type \<open>fault\<close>; every operation returns
  \<open>fault + result\<close>.
\<close>

type_synonym u32 = "32 word"

datatype fault = BadPointer | OutOfBounds

text \<open>
  The constants of \<^verbatim>\<open>vm.h\<close> (not under src/) that \<^verbatim>\<open>pa3.c\<close> mentions, as
  parameters of every operation: the number of page frames, the number of entries of a
  directory and of the outer table, and the access mode of a read.
\<close>

record config =
  NR_PAGEFRAMES :: nat
  NR_PTES_PER_PAGE :: nat
  RW_READ :: u32

text \<open>
  Modelled from the spec: \<^verbatim>\<open>struct pte\<close> (declared in \<^verbatim>\<open>vm.h\<close>, not under src/).
  The data model of the specification gives an entry a validity flag, a writable flag, a
  frame number and a private (copy-on-write) marker; these are the four fields that
  \<^verbatim>\<open>pa3.c\<close> reads and writes. The field \<^verbatim>\<open>private\<close> is written with 0 and 1 only
  and read as a truth value. The field \<^verbatim>\<open>pfn\<close> only ever receives 0 or the result of
  the frame scan, and is used as an index into \<^verbatim>\<open>mapcounts\<close>.
\<close>

record pte =
  valid :: bool
  writable :: bool
  pfn :: nat
  private' :: bool

text \<open>
  Modelled from the spec: \<^verbatim>\<open>struct pte_directory\<close>, \<^verbatim>\<open>struct pagetable\<close> and
  \<^verbatim>\<open>struct process\<close> (declared in \<^verbatim>\<open>vm.h\<close>, not under src/): an inner directory
  is "a fixed-size ordered sequence of PTEs", a page table "a fixed-size ordered sequence
  of optional references to Inner Directories", and a process has a process id and owns
  one page table. The field names are those \<^verbatim>\<open>pa3.c\<close> uses.

  \<^verbatim>\<open>outer_ptes[i]\<close> is a pointer to a directory or NULL. \<^verbatim>\<open>pa3.c\<close> stores into
  such a slot only the result of a fresh \<^verbatim>\<open>malloc\<close> and never copies a directory
  pointer, so every directory it installs is reached from exactly one slot: the directory
  is kept by value in its slot, and NULL is \<open>None\<close>. A slot that \<^verbatim>\<open>pa3.c\<close> never
  writes (in the outer table of a forked process) holds what the allocator left there;
  see \<open>junk\<close> below.
\<close>

record pte_directory =
  ptes :: "pte list"

record pagetable =
  outer_ptes :: "pte_directory option list"

record process =
  pid :: u32
  pagetable :: pagetable

text \<open>
  The globals. A \<^verbatim>\<open>struct process *\<close> is an index into \<open>heap\<close>, the list of all
  process objects ever created. \<^verbatim>\<open>ptbr\<close> always points to the \<^verbatim>\<open>pagetable\<close> field
  of some process object: \<open>Some a\<close> stands for \<^verbatim>\<open>&a->pagetable\<close>, \<open>None\<close> for NULL.
  \<open>processes\<close> is the ready list from its head.
\<close>

record machine =
  heap :: "process list"
  processes :: "nat list"
  current :: nat
  ptbr :: "nat option"
  mapcounts :: "u32 list"

section \<open>The environment\<close>

text \<open>
  \<^verbatim>\<open>malloc\<close> (C library). \<^verbatim>\<open>pa3.c\<close> calls it in three places (lines 71, 200
  and 207), never tests the result and never initialises the storage, whose contents are
  indeterminate. The model takes the contents that the allocator happens to return as an
  argument and assumes nothing about them:

  \<^item> \<open>junk_pid\<close> and \<open>junk_slots\<close>: the \<^verbatim>\<open>pid\<close> field and the directory pointer in
    slot \<open>i\<close> of the outer table of a \<^verbatim>\<open>struct process\<close> as \<^verbatim>\<open>malloc\<close> returns it
    (line 200);
  \<^item> \<open>junk_ptes i j\<close>: entry \<open>j\<close> of a \<^verbatim>\<open>struct pte_directory\<close> as \<^verbatim>\<open>malloc\<close>
    returns it for slot \<open>i\<close> of an outer table (lines 71 and 207).

  The size of the allocated object is that of its C type: a directory has
  \<^verbatim>\<open>NR_PTES_PER_PAGE\<close> entries and an outer table as many slots. An indeterminate
  directory pointer is a value of the slot type like any other: NULL (\<open>None\<close>), or a
  pointer, which the model, keeping directories by value, represents by the directory that
  is read through it. An allocation always succeeds and yields an object distinct from
  every other.
\<close>

record junk =
  junk_pid :: u32
  junk_slots :: "nat \<Rightarrow> pte_directory option"
  junk_ptes :: "nat \<Rightarrow> nat \<Rightarrow> pte"

definition malloc_pte_directory :: "config \<Rightarrow> (nat \<Rightarrow> pte) \<Rightarrow> pte_directory" where
  "malloc_pte_directory c g = \<lparr>ptes = map g [0..<NR_PTES_PER_PAGE c]\<rparr>"

definition malloc_process :: "config \<Rightarrow> junk \<Rightarrow> process" where
  "malloc_process c J =
     \<lparr>pid = junk_pid J,
      pagetable = \<lparr>outer_ptes = map (junk_slots J) [0..<NR_PTES_PER_PAGE c]\<rparr>\<rparr>"

text \<open>
  Modelled from the spec: the list utility (\<^verbatim>\<open>list_head.h\<close>, not under src/), "the
  list/container utility used to hold the set of non-running processes".
  \<^verbatim>\<open>list_add(new, head)\<close> links an entry in right after the head, \<^verbatim>\<open>list_del\<close>
  unlinks an entry, and \<^verbatim>\<open>list_for_each_entry_safe\<close> visits the entries from the head.
\<close>

definition list_add :: "nat \<Rightarrow> nat list \<Rightarrow> nat list" where
  "list_add new xs = new # xs"

definition list_del :: "nat \<Rightarrow> nat list \<Rightarrow> nat list" where
  "list_del entry xs = remove1 entry xs"

section \<open>Access to the active page table\<close>

text \<open>
  The page table of process object \<open>a\<close>, the directory slot \<open>i\<close> in it, and the store
  into a slot (\<^verbatim>\<open>pt->outer_ptes[i]\<close> with \<^verbatim>\<open>pt = &a->pagetable\<close>).
\<close>

definition pt_of :: "machine \<Rightarrow> nat \<Rightarrow> pagetable" where
  "pt_of s a = pagetable (heap s ! a)"

definition store_pt :: "nat \<Rightarrow> pagetable \<Rightarrow> machine \<Rightarrow> machine" where
  "store_pt a pt s = s\<lparr>heap := (heap s)[a := (heap s ! a)\<lparr>pagetable := pt\<rparr>]\<rparr>"

definition store_pd :: "nat \<Rightarrow> nat \<Rightarrow> pte_directory \<Rightarrow> machine \<Rightarrow> machine" where
  "store_pd a i pd s =
     store_pt a ((pt_of s a)\<lparr>outer_ptes := (outer_ptes (pt_of s a))[i := Some pd]\<rparr>) s"

definition store_pte :: "nat \<Rightarrow> pte \<Rightarrow> pte_directory \<Rightarrow> pte_directory" where
  "store_pte j e pd = pd\<lparr>ptes := (ptes pd)[j := e]\<rparr>"

text \<open>
  The common prologue of \<^verbatim>\<open>free_page\<close> and \<^verbatim>\<open>handle_page_fault\<close>:
  \<^verbatim>\<open>pt = ptbr; pd = pt->outer_ptes[pd_index]; pte = &pd->ptes[pte_index];\<close>
  followed by the first access through \<^verbatim>\<open>pte\<close>. It yields the process object that
  \<^verbatim>\<open>ptbr\<close> points into, the two indices, and the directory.
\<close>

definition locate :: "config \<Rightarrow> u32 \<Rightarrow> machine \<Rightarrow> fault + (nat \<times> nat \<times> nat \<times> pte_directory)" where
  "locate c vpn s =
     (let pd_index = unat vpn div NR_PTES_PER_PAGE c;
          pte_index = unat vpn mod NR_PTES_PER_PAGE c
      in case ptbr s of
           None \<Rightarrow> Inl BadPointer
         | Some a \<Rightarrow>
             if \<not> a < length (heap s) then Inl BadPointer
             else if \<not> pd_index < NR_PTES_PER_PAGE c then Inl OutOfBounds
             else (case outer_ptes (pt_of s a) ! pd_index of
                     None \<Rightarrow> Inl BadPointer
                   | Some pd \<Rightarrow> Inr (a, pd_index, pte_index, pd)))"

section \<open>The frame scan\<close>

text \<open>
  \<^verbatim>\<open>while (num < NR_PAGEFRAMES && mapcounts[num]) num++;\<close> as it stands in
  \<^verbatim>\<open>alloc_page\<close> and in \<^verbatim>\<open>handle_page_fault\<close>.
\<close>

function scan_frames :: "nat \<Rightarrow> u32 list \<Rightarrow> nat \<Rightarrow> nat" where
  "scan_frames n mc num = (if num < n \<and> mc ! num \<noteq> 0 then scan_frames n mc (num + 1) else num)"
  by pat_completeness auto
termination
  by (relation "measure (\<lambda>(n, mc, num). n - num)") auto

declare scan_frames.simps [simp del]

section \<open>alloc\_page\<close>

text \<open>
  The directory for the page is allocated, if it is missing, before the frame scan, so it
  stays allocated when no frame is free and \<open>-1\<close> is returned; its entries are not
  initialised. The entry of the page is written whatever it held before. The mode is
  compared with the literal \<^verbatim>\<open>0x03\<close>.
\<close>

definition alloc_page ::
  "config \<Rightarrow> junk \<Rightarrow> u32 \<Rightarrow> u32 \<Rightarrow> machine \<Rightarrow> fault + (u32 \<times> machine)" where
  "alloc_page c J vpn rw s =
     (let pd_index = unat vpn div NR_PTES_PER_PAGE c;
          pte_index = unat vpn mod NR_PTES_PER_PAGE c
      in case ptbr s of
           None \<Rightarrow> Inl BadPointer
         | Some a \<Rightarrow>
             if \<not> a < length (heap s) then Inl BadPointer
             else if \<not> pd_index < NR_PTES_PER_PAGE c then Inl OutOfBounds
             else
               let pd = (case outer_ptes (pt_of s a) ! pd_index of
                           None \<Rightarrow> malloc_pte_directory c (junk_ptes J pd_index)
                         | Some d \<Rightarrow> d);
                   s1 = store_pd a pd_index pd s;
                   num = scan_frames (NR_PAGEFRAMES c) (mapcounts s1) 0
               in if num = NR_PAGEFRAMES c then Inr (- 1, s1)
                  else
                    let s2 = s1\<lparr>mapcounts := (mapcounts s1)[num := mapcounts s1 ! num + 1]\<rparr>;
                        pte = (ptes pd ! pte_index)
                                \<lparr>valid := True, writable := (rw = 3), pfn := num,
                                 private' := False\<rparr>
                    in Inr (of_nat num, store_pd a pd_index (store_pte pte_index pte pd) s2))"

section \<open>free\_page\<close>

text \<open>
  The counter is an \<^verbatim>\<open>unsigned int\<close>: the decrement wraps around at 0. The three fields
  \<^verbatim>\<open>valid\<close>, \<^verbatim>\<open>writable\<close> and \<^verbatim>\<open>pfn\<close> are reset; \<^verbatim>\<open>private\<close> is not written.
\<close>

definition free_page :: "config \<Rightarrow> u32 \<Rightarrow> machine \<Rightarrow> fault + machine" where
  "free_page c vpn s =
     (case locate c vpn s of
        Inl f \<Rightarrow> Inl f
      | Inr (a, pd_index, pte_index, pd) \<Rightarrow>
          let pte = ptes pd ! pte_index in
          if \<not> pfn pte < length (mapcounts s) then Inl OutOfBounds
          else
            let s1 = s\<lparr>mapcounts := (mapcounts s)[pfn pte := mapcounts s ! pfn pte - 1]\<rparr>;
                pte = pte\<lparr>valid := False, writable := False, pfn := 0\<rparr>
            in Inr (store_pd a pd_index (store_pte pte_index pte pd) s1))"

section \<open>handle\_page\_fault\<close>

text \<open>
  After the test for a read access, the entry is read through \<^verbatim>\<open>pd\<close> without a test
  of \<^verbatim>\<open>pd\<close> for NULL and without a test of \<^verbatim>\<open>pte->valid\<close>.
\<close>

definition handle_page_fault :: "config \<Rightarrow> u32 \<Rightarrow> u32 \<Rightarrow> machine \<Rightarrow> fault + (bool \<times> machine)" where
  "handle_page_fault c vpn rw s =
     (if rw = RW_READ c then Inr (False, s)
      else
        case locate c vpn s of
          Inl f \<Rightarrow> Inl f
        | Inr (a, pd_index, pte_index, pd) \<Rightarrow>
            let pte = ptes pd ! pte_index in
            if \<not> writable pte \<and> private' pte then
              if \<not> pfn pte < length (mapcounts s) then Inl OutOfBounds
              else if mapcounts s ! pfn pte = 1 then
                let pte = pte\<lparr>writable := True, private' := False\<rparr>
                in Inr (True, store_pd a pd_index (store_pte pte_index pte pd) s)
              else
                let num = scan_frames (NR_PAGEFRAMES c) (mapcounts s) 0 in
                if num = NR_PAGEFRAMES c then Inr (False, s)
                else
                  let mc1 = (mapcounts s)[pfn pte := mapcounts s ! pfn pte - 1];
                      mc2 = mc1[num := mc1 ! num + 1];
                      pte = pte\<lparr>pfn := num, writable := True, private' := False\<rparr>
                  in Inr (True,
                       store_pd a pd_index (store_pte pte_index pte pd) (s\<lparr>mapcounts := mc2\<rparr>))
            else Inr (False, s))"

section \<open>switch\_process\<close>

text \<open>
  The fork copies from the page table that \<^verbatim>\<open>ptbr\<close> points to. Its two loops are
  modelled round by round: the body of a loop as a function of the loop index, and the
  loop as the composition of the first \<open>n\<close> rounds. The child's process object and its
  directories come from \<^verbatim>\<open>malloc\<close>; the loops write the four fields of a child entry
  where the parent's entry is valid, and the directory pointer of a child slot where the
  parent's is not NULL, and nothing else.

  The body of the inner loop of the fork, for index \<open>j\<close>, on the counters, the parent's
  directory \<^verbatim>\<open>pd\<close> and the child's directory \<^verbatim>\<open>temp_pd\<close>.
\<close>

type_synonym pd_loop = "u32 list \<times> pte_directory \<times> pte_directory"

definition fork_pte :: "nat \<Rightarrow> pd_loop \<Rightarrow> fault + pd_loop" where
  "fork_pte j st =
     (case st of (mc, pd, temp_pd) \<Rightarrow>
        let pte = ptes pd ! j in
        if \<not> valid pte then Inr (mc, pd, temp_pd)
        else if \<not> pfn pte < length mc then Inl OutOfBounds
        else
          let mc = mc[pfn pte := mc ! pfn pte + 1];
              pte = (if writable pte then pte\<lparr>writable := False, private' := True\<rparr> else pte);
              temp_pte = (ptes temp_pd ! j)
                           \<lparr>pfn := pfn pte, valid := True, writable := writable pte,
                            private' := private' pte\<rparr>
          in Inr (mc, store_pte j pte pd, store_pte j temp_pte temp_pd))"

text \<open>\<^verbatim>\<open>for (int j = 0; j < n; j++)\<close>: the first \<open>n\<close> rounds of the inner loop.\<close>

primrec fork_ptes :: "nat \<Rightarrow> pd_loop \<Rightarrow> fault + pd_loop" where
  "fork_ptes 0 st = Inr st"
| "fork_ptes (Suc j) st =
     (case fork_ptes j st of Inl f \<Rightarrow> Inl f | Inr st' \<Rightarrow> fork_pte j st')"

text \<open>
  The body of the outer loop, for index \<open>i\<close>, on the counters, the parent's page table
  \<^verbatim>\<open>pt\<close> and the child's page table \<^verbatim>\<open>temp_pt\<close>.
\<close>

type_synonym pt_loop = "u32 list \<times> pagetable \<times> pagetable"

definition fork_pd :: "config \<Rightarrow> junk \<Rightarrow> nat \<Rightarrow> pt_loop \<Rightarrow> fault + pt_loop" where
  "fork_pd c J i st =
     (case st of (mc, pt, temp_pt) \<Rightarrow>
        (case outer_ptes pt ! i of
           None \<Rightarrow> Inr (mc, pt, temp_pt)
         | Some pd \<Rightarrow>
             (case fork_ptes (NR_PTES_PER_PAGE c)
                     (mc, pd, malloc_pte_directory c (junk_ptes J i)) of
                Inl f \<Rightarrow> Inl f
              | Inr (mc', pd', temp_pd) \<Rightarrow>
                  Inr (mc',
                       pt\<lparr>outer_ptes := (outer_ptes pt)[i := Some pd']\<rparr>,
                       temp_pt\<lparr>outer_ptes := (outer_ptes temp_pt)[i := Some temp_pd]\<rparr>))))"

primrec fork_pds :: "config \<Rightarrow> junk \<Rightarrow> nat \<Rightarrow> pt_loop \<Rightarrow> fault + pt_loop" where
  "fork_pds c J 0 st = Inr st"
| "fork_pds c J (Suc i) st =
     (case fork_pds c J i st of Inl f \<Rightarrow> Inl f | Inr st' \<Rightarrow> fork_pd c J i st')"

text \<open>
  The search of the ready list: the first entry whose \<^verbatim>\<open>pid\<close> is the requested one.
  The loop returns from inside its body at that entry, so nothing after it is visited.
\<close>

definition find_pid :: "machine \<Rightarrow> u32 \<Rightarrow> nat option" where
  "find_pid s p = find (\<lambda>temp. pid (heap s ! temp) = p) (processes s)"

definition switch_process :: "config \<Rightarrow> junk \<Rightarrow> u32 \<Rightarrow> machine \<Rightarrow> fault + machine" where
  "switch_process c J p s =
     (case find_pid s p of
        Some temp \<Rightarrow>
          Inr (s\<lparr>processes := list_del temp (list_add (current s) (processes s)),
                 current := temp,
                 ptbr := Some temp\<rparr>)
      | None \<Rightarrow>
          (case ptbr s of
             None \<Rightarrow> Inl BadPointer
           | Some a \<Rightarrow>
               if \<not> a < length (heap s) then Inl BadPointer
               else
                 let temp = length (heap s);
                     temp_pt = pagetable (malloc_process c J)
                 in (case fork_pds c J (NR_PTES_PER_PAGE c) (mapcounts s, pt_of s a, temp_pt) of
                       Inl f \<Rightarrow> Inl f
                     | Inr (mc, pt, temp_pt') \<Rightarrow>
                         Inr ((store_pt a pt s)
                               \<lparr>heap := heap (store_pt a pt s) @
                                          [(malloc_process c J)\<lparr>pid := p, pagetable := temp_pt'\<rparr>],
                                mapcounts := mc,
                                processes := list_add (current s) (processes s),
                                current := temp,
                                ptbr := Some temp\<rparr>))))"


section \<open>Observations and invariants\<close>

text \<open>
  What a page-table walk finds: the entry in slot \<open>j\<close> of directory \<open>i\<close> of the page
  table of process object \<open>a\<close> (\<open>None\<close> when that directory has not been allocated),
  and the entry for a virtual page number.
\<close>

definition entry :: "machine \<Rightarrow> nat \<Rightarrow> nat \<Rightarrow> nat \<Rightarrow> pte option" where
  "entry s a i j =
     (case outer_ptes (pt_of s a) ! i of None \<Rightarrow> None | Some pd \<Rightarrow> Some (ptes pd ! j))"

definition pte_at :: "config \<Rightarrow> machine \<Rightarrow> nat \<Rightarrow> u32 \<Rightarrow> pte option" where
  "pte_at c s a vpn =
     (if unat vpn div NR_PTES_PER_PAGE c < NR_PTES_PER_PAGE c
      then entry s a (unat vpn div NR_PTES_PER_PAGE c) (unat vpn mod NR_PTES_PER_PAGE c)
      else None)"

text \<open>The frame a slot maps, if it holds a valid entry.\<close>

definition mapped :: "machine \<Rightarrow> nat \<Rightarrow> nat \<Rightarrow> nat \<Rightarrow> nat option" where
  "mapped s a i j =
     (case entry s a i j of
        None \<Rightarrow> None
      | Some e \<Rightarrow> if valid e then Some (pfn e) else None)"

text \<open>
  The array sizes that the C types fix: \<^verbatim>\<open>NR_PTES_PER_PAGE\<close> entries in every
  directory and in every outer table, \<^verbatim>\<open>NR_PAGEFRAMES\<close> counters.
\<close>

definition wf_pd :: "config \<Rightarrow> pte_directory \<Rightarrow> bool" where
  "wf_pd c pd = (length (ptes pd) = NR_PTES_PER_PAGE c)"

definition wf_pt :: "config \<Rightarrow> pagetable \<Rightarrow> bool" where
  "wf_pt c pt =
     (length (outer_ptes pt) = NR_PTES_PER_PAGE c \<and>
      list_all (\<lambda>d. case d of None \<Rightarrow> True | Some pd \<Rightarrow> wf_pd c pd) (outer_ptes pt))"

definition shape :: "config \<Rightarrow> machine \<Rightarrow> bool" where
  "shape c s =
     (length (mapcounts s) = NR_PAGEFRAMES c \<and>
      list_all (\<lambda>p. wf_pt c (pagetable p)) (heap s))"

text \<open>Every valid entry of every process names a frame that exists.\<close>

definition frames_pd :: "config \<Rightarrow> pte_directory \<Rightarrow> bool" where
  "frames_pd c pd = list_all (\<lambda>e. valid e \<longrightarrow> pfn e < NR_PAGEFRAMES c) (ptes pd)"

definition frames_pt :: "config \<Rightarrow> pagetable \<Rightarrow> bool" where
  "frames_pt c pt =
     list_all (\<lambda>d. case d of None \<Rightarrow> True | Some pd \<Rightarrow> frames_pd c pd) (outer_ptes pt)"

definition frames_ok :: "config \<Rightarrow> machine \<Rightarrow> bool" where
  "frames_ok c s = list_all (\<lambda>p. frames_pt c (pagetable p)) (heap s)"

text \<open>
  The scheduling invariant: \<^verbatim>\<open>ptbr\<close> is the page table of \<^verbatim>\<open>current\<close>, the ready
  list holds process objects without repetition, and every process object is either
  \<^verbatim>\<open>current\<close> or on the ready list, never both.
\<close>

definition sched_ok :: "machine \<Rightarrow> bool" where
  "sched_ok s =
     (ptbr s = Some (current s) \<and>
      current s < length (heap s) \<and>
      distinct (processes s) \<and>
      current s \<notin> set (processes s) \<and>
      list_all (\<lambda>a. a < length (heap s)) (processes s) \<and>
      list_all (\<lambda>a. a = current s \<or> a \<in> set (processes s)) [0..<length (heap s)])"

text \<open>
  The number of valid entries that map frame \<open>F\<close>: in a directory, in a page table, and
  in the page tables of the current process and of all processes on the ready list.
\<close>

definition pd_refs :: "nat \<Rightarrow> pte_directory \<Rightarrow> nat" where
  "pd_refs F pd = length (filter (\<lambda>e. valid e \<and> pfn e = F) (ptes pd))"

definition slot_refs :: "nat \<Rightarrow> pte_directory option \<Rightarrow> nat" where
  "slot_refs F d = (case d of None \<Rightarrow> 0 | Some pd \<Rightarrow> pd_refs F pd)"

definition pt_refs :: "nat \<Rightarrow> pagetable \<Rightarrow> nat" where
  "pt_refs F pt = sum_list (map (slot_refs F) (outer_ptes pt))"

definition refs :: "machine \<Rightarrow> nat \<Rightarrow> nat" where
  "refs s F = sum_list (map (\<lambda>a. pt_refs F (pt_of s a)) (current s # processes s))"

definition conserved :: "config \<Rightarrow> machine \<Rightarrow> bool" where
  "conserved c s =
     list_all (\<lambda>F. unat (mapcounts s ! F) = refs s F) [0..<NR_PAGEFRAMES c]"

text \<open>
  Whether an entry counts for frame \<open>F\<close>, and the invariant of the whole machine: array
  sizes, frames in range, scheduling, and counters equal to the number of mappings.
\<close>

definition hit :: "nat \<Rightarrow> pte \<Rightarrow> nat" where
  "hit F e = (if valid e \<and> pfn e = F then 1 else 0)"

definition vm_inv :: "config \<Rightarrow> machine \<Rightarrow> bool" where
  "vm_inv c s = (shape c s \<and> frames_ok c s \<and> sched_ok s \<and> conserved c s)"

section \<open>The effect of the fork loops, in closed form\<close>

text \<open>
  What one round of the inner loop does to a parent entry (\<open>cow\<close>) and to the child's
  entry in the same slot (\<open>child_pte\<close>, on the indeterminate entry \<open>t\<close> that the
  allocator returned), and what the loops do to the counters (\<open>bump\<close>,
  \<open>bump_slots\<close>), to a directory and to the child's directory and slot.
\<close>

definition cow :: "pte \<Rightarrow> pte" where
  "cow e = (if valid e \<and> writable e then e\<lparr>writable := False, private' := True\<rparr> else e)"

definition child_pte :: "pte \<Rightarrow> pte \<Rightarrow> pte" where
  "child_pte t e =
     (if valid e
      then t\<lparr>pfn := pfn (cow e), valid := True, writable := writable (cow e),
             private' := private' (cow e)\<rparr>
      else t)"

definition bump :: "u32 list \<Rightarrow> pte list \<Rightarrow> u32 list" where
  "bump mc es = fold (\<lambda>e m. if valid e then m[pfn e := m ! pfn e + 1] else m) es mc"

definition cow_pd :: "pte_directory \<Rightarrow> pte_directory" where
  "cow_pd pd = pd\<lparr>ptes := map cow (ptes pd)\<rparr>"

definition child_pd :: "config \<Rightarrow> (nat \<Rightarrow> pte) \<Rightarrow> pte_directory \<Rightarrow> pte_directory" where
  "child_pd c g pd =
     (malloc_pte_directory c g)
       \<lparr>ptes := map2 child_pte (ptes (malloc_pte_directory c g)) (ptes pd)\<rparr>"

definition child_slot ::
  "config \<Rightarrow> junk \<Rightarrow> nat \<Rightarrow> pte_directory option \<Rightarrow> pte_directory option" where
  "child_slot c J i d =
     (case d of None \<Rightarrow> junk_slots J i | Some pd \<Rightarrow> Some (child_pd c (junk_ptes J i) pd))"

definition bump_slots :: "u32 list \<Rightarrow> pte_directory option list \<Rightarrow> u32 list" where
  "bump_slots mc ds = fold (\<lambda>d m. case d of None \<Rightarrow> m | Some pd \<Rightarrow> bump m (ptes pd)) ds mc"

definition pd_in_range :: "nat \<Rightarrow> pte_directory \<Rightarrow> bool" where
  "pd_in_range n pd = (\<forall>e\<in>set (ptes pd). valid e \<longrightarrow> pfn e < n)"

definition cow_pt :: "pagetable \<Rightarrow> pagetable" where
  "cow_pt pt = pt\<lparr>outer_ptes := map (map_option cow_pd) (outer_ptes pt)\<rparr>"

definition child_pt :: "config \<Rightarrow> junk \<Rightarrow> pagetable \<Rightarrow> pagetable" where
  "child_pt c J pt =
     (pagetable (malloc_process c J))
       \<lparr>outer_ptes := map (\<lambda>i. child_slot c J i (outer_ptes pt ! i)) [0..<NR_PTES_PER_PAGE c]\<rparr>"

text \<open>The state after a fork, given that the loops run without a fault.\<close>

definition fork_state :: "config \<Rightarrow> junk \<Rightarrow> u32 \<Rightarrow> machine \<Rightarrow> machine" where
  "fork_state c J p s =
     s\<lparr>heap := (heap s)[current s := (heap s ! current s)\<lparr>pagetable := cow_pt (pt_of s (current s))\<rparr>] @
                [\<lparr>pid = p, pagetable = child_pt c J (pt_of s (current s))\<rparr>],
       mapcounts := bump_slots (mapcounts s) (outer_ptes (pt_of s (current s))),
       processes := current s # processes s,
       current := length (heap s),
       ptbr := Some (length (heap s))\<rparr>"

text \<open>
  Storage from \<^verbatim>\<open>malloc\<close> that happens to hold no mapping: a directory without a
  valid entry (the other three fields of its entries are arbitrary), and a process whose
  outer table holds NULL pointers only.
\<close>

definition clean_pd :: "config \<Rightarrow> (nat \<Rightarrow> pte) \<Rightarrow> bool" where
  "clean_pd c g = list_all (\<lambda>j. \<not> valid (g j)) [0..<NR_PTES_PER_PAGE c]"

definition clean :: "config \<Rightarrow> junk \<Rightarrow> bool" where
  "clean c J =
     list_all (\<lambda>i. junk_slots J i = None \<and> clean_pd c (junk_ptes J i)) [0..<NR_PTES_PER_PAGE c]"

section \<open>Example configuration and states\<close>

text \<open>A small configuration: four frames, two entries per directory.\<close>

definition cfg :: config where
  "cfg = \<lparr>NR_PAGEFRAMES = 4, NR_PTES_PER_PAGE = 2, RW_READ = 1\<rparr>"

text \<open>
  Modelled from the spec: the state the driver starts from (set up outside
  \<^verbatim>\<open>pa3.c\<close>): all frames free, no ready process, one current process with pid 0 and
  an empty page table, installed as the translation root.
\<close>

definition init_state :: "config \<Rightarrow> machine" where
  "init_state c =
     \<lparr>heap = [\<lparr>pid = 0, pagetable = \<lparr>outer_ptes = replicate (NR_PTES_PER_PAGE c) None\<rparr>\<rparr>],
      processes = [],
      current = 0,
      ptbr = Some 0,
      mapcounts = replicate (NR_PAGEFRAMES c) 0\<rparr>"

text \<open>
  Two behaviours of the allocator: \<open>zero_junk\<close> returns storage that is all zero,
  \<open>stale_junk\<close> returns a directory whose second entry still holds a valid mapping
  of frame 3, left there by an earlier use of the storage.
\<close>

definition zero_pte :: pte where
  "zero_pte = \<lparr>valid = False, writable = False, pfn = 0, private' = False\<rparr>"

definition zero_junk :: junk where
  "zero_junk = \<lparr>junk_pid = 0, junk_slots = (\<lambda>i. None), junk_ptes = (\<lambda>i j. zero_pte)\<rparr>"

definition stale_pte :: pte where
  "stale_pte = \<lparr>valid = True, writable = True, pfn = 3, private' = False\<rparr>"

definition stale_junk :: junk where
  "stale_junk =
     \<lparr>junk_pid = 0, junk_slots = (\<lambda>i. None),
      junk_ptes = (\<lambda>i j. if j = 1 then stale_pte else zero_pte)\<rparr>"

text \<open>
  A process of \<open>cfg\<close> whose first directory exists and holds the entry \<open>e\<close> for page
  0 and the entry \<open>e'\<close> for page 1.
\<close>

definition ex_proc :: "u32 \<Rightarrow> pte \<Rightarrow> pte \<Rightarrow> process" where
  "ex_proc p e e' = \<lparr>pid = p, pagetable = \<lparr>outer_ptes = [Some \<lparr>ptes = [e, e']\<rparr>, None]\<rparr>\<rparr>"

definition cow_pte :: "nat \<Rightarrow> pte" where
  "cow_pte f = \<lparr>valid = True, writable = False, pfn = f, private' = True\<rparr>"

definition rw_pte :: "nat \<Rightarrow> pte" where
  "rw_pte f = \<lparr>valid = True, writable = True, pfn = f, private' = False\<rparr>"

definition freed_pte :: pte where
  "freed_pte = \<lparr>valid = False, writable = False, pfn = 0, private' = True\<rparr>"

text \<open>
  States of a run from \<open>init_state cfg\<close> with \<open>zero_junk\<close>: after \<^verbatim>\<open>alloc_page(0, 3)\<close>; then after
  \<^verbatim>\<open>switch_process(1)\<close>, which forks; then after \<^verbatim>\<open>free_page(0)\<close> in the child;
  then after \<^verbatim>\<open>switch_process(0)\<close>, back in the parent.
\<close>

definition ex_alloc :: machine where
  "ex_alloc =
     \<lparr>heap = [ex_proc 0 (rw_pte 0) zero_pte],
      processes = [], current = 0, ptbr = Some 0, mapcounts = [1, 0, 0, 0]\<rparr>"

definition ex_shared :: machine where
  "ex_shared =
     \<lparr>heap = [ex_proc 0 (cow_pte 0) zero_pte, ex_proc 1 (cow_pte 0) zero_pte],
      processes = [0], current = 1, ptbr = Some 1, mapcounts = [2, 0, 0, 0]\<rparr>"

definition ex_freed :: machine where
  "ex_freed =
     \<lparr>heap = [ex_proc 0 (cow_pte 0) zero_pte, ex_proc 1 freed_pte zero_pte],
      processes = [0], current = 1, ptbr = Some 1, mapcounts = [1, 0, 0, 0]\<rparr>"

text \<open>
  The state after \<^verbatim>\<open>switch_process(1)\<close> in \<open>ex_alloc\<close> when the allocator behaves
  as \<open>stale_junk\<close>: the child's entry for page 1 is what the allocator returned.
\<close>

definition ex_stale :: machine where
  "ex_stale =
     \<lparr>heap = [ex_proc 0 (cow_pte 0) zero_pte, ex_proc 1 (cow_pte 0) stale_pte],
      processes = [0], current = 1, ptbr = Some 1, mapcounts = [2, 0, 0, 0]\<rparr>"

definition ex_sole :: machine where
  "ex_sole =
     \<lparr>heap = [ex_proc 0 (cow_pte 0) zero_pte, ex_proc 1 freed_pte zero_pte],
      processes = [1], current = 0, ptbr = Some 0, mapcounts = [1, 0, 0, 0]\<rparr>"

text \<open>
  Modelled from the spec: the driver (outside \<^verbatim>\<open>pa3.c\<close>), which "calls into"
  \<^verbatim>\<open>alloc_page\<close>, \<^verbatim>\<open>free_page\<close>, \<^verbatim>\<open>handle_page_fault\<close> "on simulated faulting
  accesses" and \<^verbatim>\<open>switch_process\<close>, one call after the other. A run stops at the
  first fault.
\<close>

datatype command = Alloc u32 u32 | Free u32 | Fault u32 u32 | Switch u32

fun exec :: "config \<Rightarrow> junk \<Rightarrow> command \<Rightarrow> machine \<Rightarrow> fault + machine" where
  "exec c J (Alloc vpn rw) s = map_sum id snd (alloc_page c J vpn rw s)"
| "exec c J (Free vpn) s = free_page c vpn s"
| "exec c J (Fault vpn rw) s = map_sum id snd (handle_page_fault c vpn rw s)"
| "exec c J (Switch p) s = switch_process c J p s"

fun run :: "config \<Rightarrow> junk \<Rightarrow> command list \<Rightarrow> machine \<Rightarrow> fault + machine" where
  "run c J [] s = Inr s"
| "run c J (x # xs) s = (case exec c J x s of Inl f \<Rightarrow> Inl f | Inr s' \<Rightarrow> run c J xs s')"

text \<open>
  Further states of runs from \<open>init_state cfg\<close>: the state after
  \<^verbatim>\<open>alloc_page(0, 3)\<close> twice; the state after \<^verbatim>\<open>switch_process(0)\<close> in the initial
  state.
\<close>

definition ex_leak :: machine where
  "ex_leak =
     \<lparr>heap = [ex_proc 0 (rw_pte 1) zero_pte],
      processes = [], current = 0, ptbr = Some 0, mapcounts = [1, 1, 0, 0]\<rparr>"

text \<open>
  A state of a run in which all four frames are in use and the current process shares
  frames 0 and 1 with the initial process.
\<close>

definition ex_full :: machine where
  "ex_full =
     \<lparr>heap = [ex_proc 0 (cow_pte 0) (cow_pte 1), ex_proc 1 (cow_pte 0) (cow_pte 1),
              ex_proc 2 (rw_pte 2) (rw_pte 3)],
      processes = [2, 0], current = 1, ptbr = Some 1, mapcounts = [2, 2, 1, 1]\<rparr>"

definition ex_self :: machine where
  "ex_self =
     \<lparr>heap = [\<lparr>pid = 0, pagetable = \<lparr>outer_ptes = [None, None]\<rparr>\<rparr>,
              \<lparr>pid = 0, pagetable = \<lparr>outer_ptes = [None, None]\<rparr>\<rparr>],
      processes = [0], current = 1, ptbr = Some 1, mapcounts = [0, 0, 0, 0]\<rparr>"

section \<open>Basic facts\<close>

subsection \<open>The frame scan returns the first free frame\<close>

lemma scan_frames_found:
  "num \<le> f \<Longrightarrow> f < n \<Longrightarrow> mc ! f = 0 \<Longrightarrow> (\<forall>k. num \<le> k \<and> k < f \<longrightarrow> mc ! k \<noteq> 0)
     \<Longrightarrow> scan_frames n mc num = f"
proof (induction n mc num rule: scan_frames.induct)
  case (1 n mc num)
  show ?case
  proof (cases "num = f")
    case True
    with "1.prems" show ?thesis by (subst scan_frames.simps) simp
  next
    case False
    with "1.prems" have lt: "num < f" and nz: "mc ! num \<noteq> 0" by auto
    with "1.prems" have "scan_frames n mc (num + 1) = f"
      by (intro "1.IH") auto
    with lt nz "1.prems" show ?thesis by (subst scan_frames.simps) simp
  qed
qed

lemma scan_frames_none:
  "num \<le> n \<Longrightarrow> (\<forall>k. num \<le> k \<and> k < n \<longrightarrow> mc ! k \<noteq> 0) \<Longrightarrow> scan_frames n mc num = n"
proof (induction n mc num rule: scan_frames.induct)
  case (1 n mc num)
  show ?case
  proof (cases "num = n")
    case True
    then show ?thesis by (subst scan_frames.simps) simp
  next
    case False
    with "1.prems" have lt: "num < n" and nz: "mc ! num \<noteq> 0" by auto
    with "1.prems" have "scan_frames n mc (num + 1) = n"
      by (intro "1.IH") auto
    with lt nz show ?thesis by (subst scan_frames.simps) simp
  qed
qed

subsection \<open>Stores into a page table\<close>

lemma store_pt_simps [simp]:
  "length (heap (store_pt a pt s)) = length (heap s)"
  "mapcounts (store_pt a pt s) = mapcounts s"
  "processes (store_pt a pt s) = processes s"
  "current (store_pt a pt s) = current s"
  "ptbr (store_pt a pt s) = ptbr s"
  by (simp_all add: store_pt_def)

lemma pid_store_pt [simp]: "pid (heap (store_pt a pt s) ! b) = pid (heap s ! b)"
  by (cases "a < length (heap s)") (simp_all add: store_pt_def nth_list_update list_update_beyond)

lemma pt_of_store_pt:
  "a < length (heap s) \<Longrightarrow> pt_of (store_pt a pt s) b = (if b = a then pt else pt_of s b)"
  by (simp add: store_pt_def pt_of_def nth_list_update)

lemma store_pd_simps [simp]:
  "length (heap (store_pd a i pd s)) = length (heap s)"
  "mapcounts (store_pd a i pd s) = mapcounts s"
  "processes (store_pd a i pd s) = processes s"
  "current (store_pd a i pd s) = current s"
  "ptbr (store_pd a i pd s) = ptbr s"
  "pid (heap (store_pd a i pd s) ! b) = pid (heap s ! b)"
  by (simp_all add: store_pd_def)

lemma pt_of_mapcounts_update [simp]: "pt_of (s\<lparr>mapcounts := m\<rparr>) b = pt_of s b"
  by (simp add: pt_of_def)

lemma entry_mapcounts_update [simp]: "entry (s\<lparr>mapcounts := m\<rparr>) b i j = entry s b i j"
  by (simp add: entry_def)

lemma store_pd_mapcounts_update:
  "store_pd a i pd (s\<lparr>mapcounts := m\<rparr>) = (store_pd a i pd s)\<lparr>mapcounts := m\<rparr>"
  by (simp add: store_pd_def store_pt_def pt_of_def)

lemma pt_of_store_pd:
  "a < length (heap s) \<Longrightarrow>
   pt_of (store_pd a i pd s) b =
     (if b = a then (pt_of s a)\<lparr>outer_ptes := (outer_ptes (pt_of s a))[i := Some pd]\<rparr>
      else pt_of s b)"
  by (simp add: store_pd_def pt_of_store_pt)

lemma entry_store_pd:
  "a < length (heap s) \<Longrightarrow> i < length (outer_ptes (pt_of s a)) \<Longrightarrow>
   entry (store_pd a i pd s) b i' j =
     (if b = a \<and> i' = i then Some (ptes pd ! j) else entry s b i' j)"
  by (simp add: entry_def pt_of_store_pd nth_list_update)

lemma shape_wf_pt: "shape c s \<Longrightarrow> a < length (heap s) \<Longrightarrow> wf_pt c (pt_of s a)"
  by (simp add: shape_def pt_of_def list_all_length)

lemma wf_pt_len: "wf_pt c pt \<Longrightarrow> length (outer_ptes pt) = NR_PTES_PER_PAGE c"
  by (simp add: wf_pt_def)

lemma wf_pt_pd:
  "wf_pt c pt \<Longrightarrow> i < NR_PTES_PER_PAGE c \<Longrightarrow> outer_ptes pt ! i = Some pd
     \<Longrightarrow> length (ptes pd) = NR_PTES_PER_PAGE c"
  by (auto simp: wf_pt_def wf_pd_def list_all_length split: option.splits)

section \<open>alloc\_page: the postcondition\<close>



section \<open>Locating the entry of a page\<close>

lemma locate_entry:
  assumes sh: "shape c s" and pt: "ptbr s = Some a" and a: "a < length (heap s)"
    and e: "pte_at c s a vpn = Some e"
  shows "\<exists>pd. locate c vpn s =
            Inr (a, unat vpn div NR_PTES_PER_PAGE c, unat vpn mod NR_PTES_PER_PAGE c, pd) \<and>
          outer_ptes (pt_of s a) ! (unat vpn div NR_PTES_PER_PAGE c) = Some pd \<and>
          ptes pd ! (unat vpn mod NR_PTES_PER_PAGE c) = e \<and>
          unat vpn div NR_PTES_PER_PAGE c < length (outer_ptes (pt_of s a)) \<and>
          unat vpn mod NR_PTES_PER_PAGE c < length (ptes pd)"
proof -
  let ?N = "NR_PTES_PER_PAGE c"
  have i: "unat vpn div ?N < ?N"
    using e by (simp add: pte_at_def split: if_splits)
  then have N: "0 < ?N" by simp
  obtain pd where pd: "outer_ptes (pt_of s a) ! (unat vpn div ?N) = Some pd"
    and epd: "ptes pd ! (unat vpn mod ?N) = e"
    using e i by (auto simp: pte_at_def entry_def split: option.splits)
  have wf: "wf_pt c (pt_of s a)" using sh a by (rule shape_wf_pt)
  have "length (ptes pd) = ?N" using wf i pd by (rule wf_pt_pd)
  moreover have "length (outer_ptes (pt_of s a)) = ?N" using wf by (rule wf_pt_len)
  moreover have "locate c vpn s = Inr (a, unat vpn div ?N, unat vpn mod ?N, pd)"
    using pt a i pd by (simp add: locate_def)
  ultimately show ?thesis using pd epd i N by simp
qed

lemma entry_store_pte:
  assumes a: "a < length (heap s)" and i: "i < length (outer_ptes (pt_of s a))"
    and pd: "outer_ptes (pt_of s a) ! i = Some pd" and j: "j < length (ptes pd)"
  shows "entry (store_pd a i (store_pte j e pd) s) b i' j' =
           (if (b, i', j') = (a, i, j) then Some e else entry s b i' j')"
  using assms by (auto simp: entry_store_pd store_pte_def nth_list_update) (simp_all add: entry_def)

lemma pte_at_store_pte:
  assumes a: "a < length (heap s)"
    and i: "unat vpn div NR_PTES_PER_PAGE c < length (outer_ptes (pt_of s a))"
    and pd: "outer_ptes (pt_of s a) ! (unat vpn div NR_PTES_PER_PAGE c) = Some pd"
    and j: "unat vpn mod NR_PTES_PER_PAGE c < length (ptes pd)"
    and e: "pte_at c s a vpn = Some e0"
  shows "pte_at c (store_pd a (unat vpn div NR_PTES_PER_PAGE c)
            (store_pte (unat vpn mod NR_PTES_PER_PAGE c) e pd) s) a vpn = Some e"
  using e by (simp add: pte_at_def entry_store_pte [OF a i pd j] split: if_splits)

section \<open>handle\_page\_fault: copy on write\<close>

text \<open>
  Claim C3. If the current process has a valid, non-writable, private entry for the
  page, and the counter of its frame is exactly 1, then a fault on a write access
  succeeds; the entry becomes writable and non-private and keeps its frame; no counter
  changes (so no frame is allocated), and no other entry changes.
\<close>

theorem cow_sole_owner:
  assumes sh: "shape c s" and pt: "ptbr s = Some (current s)"
    and a: "current s < length (heap s)"
    and rw: "rw \<noteq> RW_READ c"
    and e: "pte_at c s (current s) vpn = Some e"
    and v: "valid e" and w: "\<not> writable e" and p: "private' e"
    and f: "pfn e < NR_PAGEFRAMES c"
    and cnt: "mapcounts s ! pfn e = 1"
  shows "\<exists>s'. handle_page_fault c vpn rw s = Inr (True, s') \<and>
           pte_at c s' (current s) vpn = Some (e\<lparr>writable := True, private' := False\<rparr>) \<and>
           mapcounts s' = mapcounts s \<and>
           (\<forall>b i j. (b, i, j) \<noteq>
               (current s, unat vpn div NR_PTES_PER_PAGE c, unat vpn mod NR_PTES_PER_PAGE c)
              \<longrightarrow> entry s' b i j = entry s b i j)"
proof -
  let ?i = "unat vpn div NR_PTES_PER_PAGE c"
  let ?j = "unat vpn mod NR_PTES_PER_PAGE c"
  from locate_entry [OF sh pt a e] obtain pd where
    loc: "locate c vpn s = Inr (current s, ?i, ?j, pd)"
    and pd: "outer_ptes (pt_of s (current s)) ! ?i = Some pd"
    and epd: "ptes pd ! ?j = e"
    and i: "?i < length (outer_ptes (pt_of s (current s)))"
    and j: "?j < length (ptes pd)"
    by blast
  let ?s' = "store_pd (current s) ?i (store_pte ?j (e\<lparr>writable := True, private' := False\<rparr>) pd) s"
  have flen: "pfn e < length (mapcounts s)" using sh f by (simp add: shape_def)
  have "handle_page_fault c vpn rw s = Inr (True, ?s')"
    using rw loc epd w p flen cnt by (simp add: handle_page_fault_def)
  moreover have "pte_at c ?s' (current s) vpn = Some (e\<lparr>writable := True, private' := False\<rparr>)"
    using a i pd j e by (rule pte_at_store_pte)
  moreover have "entry ?s' b i' j' = entry s b i' j'" if "(b, i', j') \<noteq> (current s, ?i, ?j)" for b i' j'
    using that by (auto simp: entry_store_pte [OF a i pd j])
  ultimately show ?thesis by (intro exI [of _ ?s']) simp
qed

text \<open>
  Claim C2. If the current process has a valid, non-writable, private entry for the
  page, and the counter of its frame is at least 2, then a fault on a write access
  takes the first free frame \<open>f\<close>: it succeeds, the counter of the old frame goes down
  by one, the counter of \<open>f\<close> becomes 1, the entry now names \<open>f\<close> and is writable and
  non-private, and every other entry of every process (in particular the other mappings
  of the old frame) is as before. If no frame is free, the fault fails and the state is
  unchanged.
\<close>

theorem cow_shared:
  assumes sh: "shape c s" and pt: "ptbr s = Some (current s)"
    and a: "current s < length (heap s)"
    and rw: "rw \<noteq> RW_READ c"
    and e: "pte_at c s (current s) vpn = Some e"
    and v: "valid e" and w: "\<not> writable e" and p: "private' e"
    and f: "pfn e < NR_PAGEFRAMES c"
    and cnt: "2 \<le> unat (mapcounts s ! pfn e)"
  shows "(\<forall>f<NR_PAGEFRAMES c. mapcounts s ! f = 0 \<and> (\<forall>k<f. mapcounts s ! k \<noteq> 0) \<longrightarrow>
           (\<exists>s'. handle_page_fault c vpn rw s = Inr (True, s') \<and>
              pte_at c s' (current s) vpn =
                Some (e\<lparr>pfn := f, writable := True, private' := False\<rparr>) \<and>
              unat (mapcounts s' ! pfn e) = unat (mapcounts s ! pfn e) - 1 \<and>
              mapcounts s' ! f = 1 \<and>
              mapcounts s' = (mapcounts s)[pfn e := mapcounts s ! pfn e - 1, f := 1] \<and>
              (\<forall>b i j. (b, i, j) \<noteq>
                  (current s, unat vpn div NR_PTES_PER_PAGE c, unat vpn mod NR_PTES_PER_PAGE c)
                 \<longrightarrow> entry s' b i j = entry s b i j))) \<and>
         ((\<forall>k<NR_PAGEFRAMES c. mapcounts s ! k \<noteq> 0) \<longrightarrow>
            handle_page_fault c vpn rw s = Inr (False, s))"
proof -
  let ?i = "unat vpn div NR_PTES_PER_PAGE c"
  let ?j = "unat vpn mod NR_PTES_PER_PAGE c"
  let ?mc = "mapcounts s"
  from locate_entry [OF sh pt a e] obtain pd where
    loc: "locate c vpn s = Inr (current s, ?i, ?j, pd)"
    and pd: "outer_ptes (pt_of s (current s)) ! ?i = Some pd"
    and epd: "ptes pd ! ?j = e"
    and i: "?i < length (outer_ptes (pt_of s (current s)))"
    and j: "?j < length (ptes pd)"
    by blast
  have flen: "pfn e < length ?mc" using sh f by (simp add: shape_def)
  have ne1: "?mc ! pfn e \<noteq> 1" using cnt by auto
  have ne0: "?mc ! pfn e \<noteq> 0" using cnt by auto
  show ?thesis
  proof (intro conjI allI impI)
    fix g
    assume g: "g < NR_PAGEFRAMES c"
      and free: "?mc ! g = 0 \<and> (\<forall>k<g. ?mc ! k \<noteq> 0)"
    let ?e' = "e\<lparr>pfn := g, writable := True, private' := False\<rparr>"
    let ?mc' = "?mc[pfn e := ?mc ! pfn e - 1, g := 1]"
    let ?s' = "store_pd (current s) ?i (store_pte ?j ?e' pd) (s\<lparr>mapcounts := ?mc'\<rparr>)"
    have sc: "scan_frames (NR_PAGEFRAMES c) ?mc 0 = g"
      using g free by (intro scan_frames_found) auto
    have glen: "g < length ?mc" using sh g by (simp add: shape_def)
    have neq: "g \<noteq> pfn e" using free ne0 by auto
    have res: "handle_page_fault c vpn rw s = Inr (True, ?s')"
      using rw loc epd w p flen ne1 sc g free neq
      by (simp add: handle_page_fault_def Let_def)
    have pte: "pte_at c ?s' (current s) vpn = Some ?e'"
      using a i pd j e
      by (simp add: store_pd_mapcounts_update pte_at_def entry_store_pte [OF a i pd j]
            split: if_splits)
    have ent: "entry ?s' b i' j' = entry s b i' j'"
      if "(b, i', j') \<noteq> (current s, ?i, ?j)" for b i' j'
      using that by (auto simp: store_pd_mapcounts_update entry_store_pte [OF a i pd j])
    have dec: "unat (?mc' ! pfn e) = unat (?mc ! pfn e) - 1"
      using flen neq ne0 by (simp add: unat_minus_one)
    have one: "?mc' ! g = 1" using glen by simp
    show "\<exists>s'. handle_page_fault c vpn rw s = Inr (True, s') \<and>
              pte_at c s' (current s) vpn = Some ?e' \<and>
              unat (mapcounts s' ! pfn e) = unat (?mc ! pfn e) - 1 \<and>
              mapcounts s' ! g = 1 \<and>
              mapcounts s' = ?mc' \<and>
              (\<forall>b i j. (b, i, j) \<noteq> (current s, ?i, ?j) \<longrightarrow> entry s' b i j = entry s b i j)"
      using res pte ent dec one by (intro exI [of _ ?s']) (simp add: store_pd_mapcounts_update)
  next
    assume full: "\<forall>k<NR_PAGEFRAMES c. ?mc ! k \<noteq> 0"
    then have "scan_frames (NR_PAGEFRAMES c) ?mc 0 = NR_PAGEFRAMES c"
      by (intro scan_frames_none) auto
    then show "handle_page_fault c vpn rw s = Inr (False, s)"
      using rw loc epd w p flen ne1 by (simp add: handle_page_fault_def Let_def)
  qed
qed

text \<open>
  The cases in which \<^verbatim>\<open>handle_page_fault\<close> returns false and leaves the state as it
  is: a read access, and an entry that is writable or is not marked private.
\<close>

lemma handle_page_fault_rejects:
  "rw = RW_READ c \<Longrightarrow> handle_page_fault c vpn rw s = Inr (False, s)"
  "locate c vpn s = Inr (a, i, j, pd) \<Longrightarrow> writable (ptes pd ! j) \<or> \<not> private' (ptes pd ! j) \<Longrightarrow>
     handle_page_fault c vpn rw s = Inr (False, s)"
  by (auto simp: handle_page_fault_def)

section \<open>free\_page\<close>

text \<open>
  Claim C6, as amended. If the page is valid in the current process, \<^verbatim>\<open>free_page\<close>
  decrements the counter of the mapped frame and resets \<^verbatim>\<open>valid\<close>, \<^verbatim>\<open>writable\<close>
  and \<^verbatim>\<open>pfn\<close> of the entry to false, false and 0; the field \<^verbatim>\<open>private\<close> keeps the
  value it had. No other entry of any process changes, also not one that maps the same
  frame.
\<close>

theorem free_page_post:
  assumes sh: "shape c s" and pt: "ptbr s = Some (current s)"
    and a: "current s < length (heap s)"
    and e: "pte_at c s (current s) vpn = Some e"
    and v: "valid e"
    and f: "pfn e < NR_PAGEFRAMES c"
  shows "\<exists>s'. free_page c vpn s = Inr s' \<and>
           pte_at c s' (current s) vpn =
             Some \<lparr>valid = False, writable = False, pfn = 0, private' = private' e\<rparr> \<and>
           mapcounts s' = (mapcounts s)[pfn e := mapcounts s ! pfn e - 1] \<and>
           (\<forall>b i j. (b, i, j) \<noteq>
               (current s, unat vpn div NR_PTES_PER_PAGE c, unat vpn mod NR_PTES_PER_PAGE c)
              \<longrightarrow> entry s' b i j = entry s b i j)"
proof -
  let ?i = "unat vpn div NR_PTES_PER_PAGE c"
  let ?j = "unat vpn mod NR_PTES_PER_PAGE c"
  from locate_entry [OF sh pt a e] obtain pd where
    loc: "locate c vpn s = Inr (current s, ?i, ?j, pd)"
    and pd: "outer_ptes (pt_of s (current s)) ! ?i = Some pd"
    and epd: "ptes pd ! ?j = e"
    and i: "?i < length (outer_ptes (pt_of s (current s)))"
    and j: "?j < length (ptes pd)"
    by blast
  let ?e' = "\<lparr>valid = False, writable = False, pfn = 0, private' = private' e\<rparr>"
  let ?mc' = "(mapcounts s)[pfn e := mapcounts s ! pfn e - 1]"
  let ?s' = "store_pd (current s) ?i (store_pte ?j ?e' pd) (s\<lparr>mapcounts := ?mc'\<rparr>)"
  have flen: "pfn e < length (mapcounts s)" using sh f by (simp add: shape_def)
  have eq: "e\<lparr>valid := False, writable := False, pfn := 0\<rparr> = ?e'"
    by simp
  have "free_page c vpn s =
      Inr (store_pd (current s) ?i
             (store_pte ?j (e\<lparr>valid := False, writable := False, pfn := 0\<rparr>) pd)
             (s\<lparr>mapcounts := ?mc'\<rparr>))"
    using loc epd flen by (simp add: free_page_def Let_def)
  then have res: "free_page c vpn s = Inr ?s'"
    by (simp only: eq)
  have pte: "pte_at c ?s' (current s) vpn = Some ?e'"
    using a i pd j e
    by (simp add: store_pd_mapcounts_update pte_at_def entry_store_pte [OF a i pd j]
          split: if_splits)
  have ent: "entry ?s' b i' j' = entry s b i' j'"
    if "(b, i', j') \<noteq> (current s, ?i, ?j)" for b i' j'
    using that by (auto simp: store_pd_mapcounts_update entry_store_pte [OF a i pd j])
  show ?thesis
    using res pte ent by (intro exI [of _ ?s']) (simp add: store_pd_mapcounts_update)
qed


section \<open>The fork loops\<close>

lemma bump_simps [simp]:
  "bump mc [] = mc"
  "bump mc (e # es) = bump (if valid e then mc[pfn e := mc ! pfn e + 1] else mc) es"
  by (simp_all add: bump_def)

lemma bump_append: "bump mc (xs @ ys) = bump (bump mc xs) ys"
  by (simp add: bump_def)

lemma length_bump [simp]: "length (bump mc es) = length mc"
  by (induction es arbitrary: mc) simp_all

lemma bump_nth:
  "F < length mc \<Longrightarrow>
   bump mc es ! F = mc ! F + of_nat (length (filter (\<lambda>e. valid e \<and> pfn e = F) es))"
  by (induction es arbitrary: mc) (simp_all add: nth_list_update)

lemma fork_ptes_closed:
  assumes "n \<le> length (ptes pd)" "n \<le> length (ptes tpd)"
    and "\<forall>j<n. valid (ptes pd ! j) \<longrightarrow> pfn (ptes pd ! j) < length mc"
  shows "fork_ptes n (mc, pd, tpd) =
     Inr (bump mc (take n (ptes pd)),
          pd\<lparr>ptes := map cow (take n (ptes pd)) @ drop n (ptes pd)\<rparr>,
          tpd\<lparr>ptes := map2 child_pte (take n (ptes tpd)) (take n (ptes pd)) @ drop n (ptes tpd)\<rparr>)"
  using assms
proof (induction n)
  case 0
  then show ?case by simp
next
  case (Suc n)
  let ?xs = "ptes pd" and ?ts = "ptes tpd"
  from Suc.prems have n: "n < length ?xs" "n < length ?ts" by simp_all
  have IH: "fork_ptes n (mc, pd, tpd) =
     Inr (bump mc (take n ?xs),
          pd\<lparr>ptes := map cow (take n ?xs) @ drop n ?xs\<rparr>,
          tpd\<lparr>ptes := map2 child_pte (take n ?ts) (take n ?xs) @ drop n ?ts\<rparr>)"
    using Suc.prems by (intro Suc.IH) auto
  have x: "(map cow (take n ?xs) @ drop n ?xs) ! n = ?xs ! n"
    using n by (simp add: nth_append)
  have t: "(map2 child_pte (take n ?ts) (take n ?xs) @ drop n ?ts) ! n = ?ts ! n"
    using n by (simp add: nth_append)
  have ux: "(map cow (take n ?xs) @ drop n ?xs)[n := cow (?xs ! n)] =
      map cow (take (Suc n) ?xs) @ drop (Suc n) ?xs"
    using n by (simp add: take_Suc_conv_app_nth list_update_append Cons_nth_drop_Suc [symmetric])
  have ut: "(map2 child_pte (take n ?ts) (take n ?xs) @ drop n ?ts)[n := child_pte (?ts ! n) (?xs ! n)] =
      map2 child_pte (take (Suc n) ?ts) (take (Suc n) ?xs) @ drop (Suc n) ?ts"
    using n by (simp add: take_Suc_conv_app_nth list_update_append Cons_nth_drop_Suc [symmetric])
  have b: "bump mc (take (Suc n) ?xs) =
      (if valid (?xs ! n)
       then (bump mc (take n ?xs))[pfn (?xs ! n) := bump mc (take n ?xs) ! pfn (?xs ! n) + 1]
       else bump mc (take n ?xs))"
    using n by (simp add: take_Suc_conv_app_nth bump_append)
  have r: "valid (?xs ! n) \<longrightarrow> pfn (?xs ! n) < length mc"
    using Suc.prems by simp
  show ?case
  proof (cases "valid (?xs ! n)")
    case False
    then have "cow (?xs ! n) = ?xs ! n" "child_pte (?ts ! n) (?xs ! n) = ?ts ! n"
      by (simp_all add: cow_def child_pte_def)
    with ux ut have "map cow (take (Suc n) ?xs) @ drop (Suc n) ?xs = map cow (take n ?xs) @ drop n ?xs"
      "map2 child_pte (take (Suc n) ?ts) (take (Suc n) ?xs) @ drop (Suc n) ?ts =
       map2 child_pte (take n ?ts) (take n ?xs) @ drop n ?ts"
      using x t by (metis list_update_id)+
    then show ?thesis
      using False IH x b by (simp add: fork_pte_def)
  next
    case True
    then have "fork_pte n (bump mc (take n ?xs),
          pd\<lparr>ptes := map cow (take n ?xs) @ drop n ?xs\<rparr>,
          tpd\<lparr>ptes := map2 child_pte (take n ?ts) (take n ?xs) @ drop n ?ts\<rparr>) =
       Inr (bump mc (take (Suc n) ?xs),
          pd\<lparr>ptes := (map cow (take n ?xs) @ drop n ?xs)[n := cow (?xs ! n)]\<rparr>,
          tpd\<lparr>ptes := (map2 child_pte (take n ?ts) (take n ?xs) @ drop n ?ts)
                         [n := child_pte (?ts ! n) (?xs ! n)]\<rparr>)"
      using r x t b by (simp add: fork_pte_def Let_def store_pte_def cow_def child_pte_def)
    then show ?thesis
      using IH ux ut by simp
  qed
qed

lemma bump_slots_simps [simp]:
  "bump_slots mc [] = mc"
  "bump_slots mc (d # ds) =
     bump_slots (case d of None \<Rightarrow> mc | Some pd \<Rightarrow> bump mc (ptes pd)) ds"
  by (simp_all add: bump_slots_def)

lemma bump_slots_append: "bump_slots mc (xs @ ys) = bump_slots (bump_slots mc xs) ys"
  by (simp add: bump_slots_def)

lemma length_bump_slots [simp]: "length (bump_slots mc ds) = length mc"
  by (induction ds arbitrary: mc) (simp_all split: option.splits)

lemma fork_ptes_full:
  assumes len: "length (ptes pd) = NR_PTES_PER_PAGE c"
    and rng: "pd_in_range (length mc) pd"
  shows "fork_ptes (NR_PTES_PER_PAGE c) (mc, pd, malloc_pte_directory c g) =
     Inr (bump mc (ptes pd), cow_pd pd, child_pd c g pd)"
proof -
  have "\<forall>j<NR_PTES_PER_PAGE c. valid (ptes pd ! j) \<longrightarrow> pfn (ptes pd ! j) < length mc"
    using len rng by (simp add: pd_in_range_def)
  then have "fork_ptes (NR_PTES_PER_PAGE c) (mc, pd, malloc_pte_directory c g) =
     Inr (bump mc (take (NR_PTES_PER_PAGE c) (ptes pd)),
          pd\<lparr>ptes := map cow (take (NR_PTES_PER_PAGE c) (ptes pd)) @
                    drop (NR_PTES_PER_PAGE c) (ptes pd)\<rparr>,
          (malloc_pte_directory c g)\<lparr>ptes :=
             map2 child_pte (take (NR_PTES_PER_PAGE c) (ptes (malloc_pte_directory c g)))
               (take (NR_PTES_PER_PAGE c) (ptes pd)) @
             drop (NR_PTES_PER_PAGE c) (ptes (malloc_pte_directory c g))\<rparr>)"
    using len by (intro fork_ptes_closed) (simp_all add: malloc_pte_directory_def)
  then show ?thesis
    using len by (simp add: cow_pd_def child_pd_def malloc_pte_directory_def)
qed

text \<open>
  After \<open>n\<close> rounds of the outer loop, the first \<open>n\<close> slots of the child's table are
  settled and the others are as \<^verbatim>\<open>malloc\<close> returned them.
\<close>

lemma fork_pds_closed:
  assumes "n \<le> length (outer_ptes pt)" "n \<le> NR_PTES_PER_PAGE c"
    and "\<forall>i<n. \<forall>pd. outer_ptes pt ! i = Some pd \<longrightarrow>
           length (ptes pd) = NR_PTES_PER_PAGE c \<and> pd_in_range (length mc) pd"
  shows "fork_pds c J n (mc, pt, pagetable (malloc_process c J)) =
     Inr (bump_slots mc (take n (outer_ptes pt)),
          pt\<lparr>outer_ptes := map (map_option cow_pd) (take n (outer_ptes pt)) @
                             drop n (outer_ptes pt)\<rparr>,
          \<lparr>outer_ptes =
             map (\<lambda>i. if i < n then child_slot c J i (outer_ptes pt ! i) else junk_slots J i)
               [0..<NR_PTES_PER_PAGE c]\<rparr>)"
  using assms
proof (induction n)
  case 0
  then show ?case by (simp add: malloc_process_def)
next
  case (Suc n)
  let ?xs = "outer_ptes pt"
  let ?N = "NR_PTES_PER_PAGE c"
  let ?T = "\<lambda>n. map (\<lambda>i. if i < n then child_slot c J i (?xs ! i) else junk_slots J i) [0..<?N]"
  let ?mc = "bump_slots mc (take n ?xs)"
  from Suc.prems have n: "n < length ?xs" "n < ?N" by simp_all
  have IH: "fork_pds c J n (mc, pt, pagetable (malloc_process c J)) =
     Inr (?mc,
          pt\<lparr>outer_ptes := map (map_option cow_pd) (take n ?xs) @ drop n ?xs\<rparr>,
          \<lparr>outer_ptes = ?T n\<rparr>)"
    using Suc.prems by (intro Suc.IH) (auto simp: less_Suc_eq)
  have x: "(map (map_option cow_pd) (take n ?xs) @ drop n ?xs) ! n = ?xs ! n"
    using n by (simp add: nth_append)
  have ux: "(map (map_option cow_pd) (take n ?xs) @ drop n ?xs)[n := map_option cow_pd (?xs ! n)] =
      map (map_option cow_pd) (take (Suc n) ?xs) @ drop (Suc n) ?xs"
    using n by (simp add: take_Suc_conv_app_nth list_update_append Cons_nth_drop_Suc [symmetric])
  have ut: "(?T n)[n := child_slot c J n (?xs ! n)] = ?T (Suc n)"
    using n by (intro nth_equalityI) (auto simp: nth_list_update less_Suc_eq)
  have b: "bump_slots mc (take (Suc n) ?xs) =
      (case ?xs ! n of None \<Rightarrow> ?mc | Some pd \<Rightarrow> bump ?mc (ptes pd))"
    using n by (simp add: take_Suc_conv_app_nth bump_slots_append)
  show ?case
  proof (cases "?xs ! n")
    case None
    then have "map_option cow_pd (?xs ! n) = ?xs ! n"
      by simp
    with ux have "map (map_option cow_pd) (take (Suc n) ?xs) @ drop (Suc n) ?xs =
        map (map_option cow_pd) (take n ?xs) @ drop n ?xs"
      using x by (metis list_update_id)
    moreover have "?T (Suc n) = ?T n"
      using None by (intro nth_equalityI) (auto simp: child_slot_def less_Suc_eq)
    ultimately show ?thesis
      using None IH x b by (simp add: fork_pd_def)
  next
    case (Some pd)
    from Suc.prems(3) Some have pd: "length (ptes pd) = NR_PTES_PER_PAGE c"
      and rng: "pd_in_range (length ?mc) pd"
      by auto
    have inner: "fork_ptes (NR_PTES_PER_PAGE c) (?mc, pd, malloc_pte_directory c (junk_ptes J n)) =
        Inr (bump ?mc (ptes pd), cow_pd pd, child_pd c (junk_ptes J n) pd)"
      using pd rng by (rule fork_ptes_full)
    have "fork_pd c J n (?mc,
          pt\<lparr>outer_ptes := map (map_option cow_pd) (take n ?xs) @ drop n ?xs\<rparr>,
          \<lparr>outer_ptes = ?T n\<rparr>) =
       Inr (bump_slots mc (take (Suc n) ?xs),
          pt\<lparr>outer_ptes := (map (map_option cow_pd) (take n ?xs) @ drop n ?xs)
                              [n := map_option cow_pd (?xs ! n)]\<rparr>,
          \<lparr>outer_ptes = (?T n)[n := child_slot c J n (?xs ! n)]\<rparr>)"
      using Some x b inner by (simp add: fork_pd_def child_slot_def)
    then show ?thesis
      using IH ux ut by simp
  qed
qed

section \<open>switch\_process: the two branches\<close>

lemma frames_ok_slot:
  assumes fr: "frames_ok c s" and a: "a < length (heap s)"
    and i: "i < length (outer_ptes (pt_of s a))" and pd: "outer_ptes (pt_of s a) ! i = Some pd"
  shows "pd_in_range (NR_PAGEFRAMES c) pd"
proof -
  have "frames_pt c (pt_of s a)"
    using fr a by (simp add: frames_ok_def pt_of_def list_all_length)
  then have "frames_pd c pd"
    using i pd by (auto simp: frames_pt_def list_all_length split: option.splits)
  then show ?thesis
    by (simp add: frames_pd_def pd_in_range_def list_all_iff)
qed

lemma switch_process_fork:
  assumes sh: "shape c s" and fr: "frames_ok c s"
    and pt: "ptbr s = Some (current s)" and a: "current s < length (heap s)"
    and nf: "find_pid s p = None"
  shows "switch_process c J p s = Inr (fork_state c J p s)"
proof -
  let ?N = "NR_PTES_PER_PAGE c"
  let ?pt = "pt_of s (current s)"
  have wf: "wf_pt c ?pt" using sh a by (rule shape_wf_pt)
  have len: "length (outer_ptes ?pt) = ?N" using wf by (rule wf_pt_len)
  have mcl: "length (mapcounts s) = NR_PAGEFRAMES c" using sh by (simp add: shape_def)
  have slots: "\<forall>i<?N. \<forall>pd. outer_ptes ?pt ! i = Some pd \<longrightarrow>
           length (ptes pd) = ?N \<and> pd_in_range (length (mapcounts s)) pd"
    using wf_pt_pd [OF wf] frames_ok_slot [OF fr a] len mcl by auto
  have "fork_pds c J ?N (mapcounts s, ?pt, pagetable (malloc_process c J)) =
     Inr (bump_slots (mapcounts s) (take ?N (outer_ptes ?pt)),
          ?pt\<lparr>outer_ptes := map (map_option cow_pd) (take ?N (outer_ptes ?pt)) @
                             drop ?N (outer_ptes ?pt)\<rparr>,
          \<lparr>outer_ptes =
             map (\<lambda>i. if i < ?N then child_slot c J i (outer_ptes ?pt ! i) else junk_slots J i)
               [0..<?N]\<rparr>)"
    using len slots by (intro fork_pds_closed) simp_all
  moreover have "map (\<lambda>i. if i < ?N then child_slot c J i (outer_ptes ?pt ! i) else junk_slots J i)
        [0..<?N] = map (\<lambda>i. child_slot c J i (outer_ptes ?pt ! i)) [0..<?N]"
    by (rule map_cong) simp_all
  ultimately have loops: "fork_pds c J ?N (mapcounts s, ?pt, pagetable (malloc_process c J)) =
     Inr (bump_slots (mapcounts s) (outer_ptes ?pt), cow_pt ?pt, child_pt c J ?pt)"
    using len by (simp add: cow_pt_def child_pt_def malloc_process_def)
  show ?thesis
    using nf pt a loops
    by (simp add: switch_process_def fork_state_def store_pt_def list_add_def malloc_process_def
          child_pt_def Let_def)
qed

lemma sched_ok_iff:
  "sched_ok s \<longleftrightarrow>
     ptbr s = Some (current s) \<and> current s < length (heap s) \<and> distinct (processes s) \<and>
     current s \<notin> set (processes s) \<and> (\<forall>a\<in>set (processes s). a < length (heap s)) \<and>
     (\<forall>a<length (heap s). a = current s \<or> a \<in> set (processes s))"
  by (auto simp: sched_ok_def list_all_iff)

lemma find_pid_Some:
  "find_pid s p = Some temp \<Longrightarrow> temp \<in> set (processes s) \<and> pid (heap s ! temp) = p"
  by (auto simp: find_pid_def find_Some_iff)

lemma find_pid_None:
  "find_pid s p = None \<longleftrightarrow> (\<forall>a\<in>set (processes s). pid (heap s ! a) \<noteq> p)"
  by (auto simp: find_pid_def find_None_iff)

lemma switch_process_existing:
  "find_pid s p = Some temp \<Longrightarrow>
   switch_process c J p s =
     Inr (s\<lparr>processes := remove1 temp (current s # processes s), current := temp,
            ptbr := Some temp\<rparr>)"
  by (simp add: switch_process_def list_add_def list_del_def)

lemma sched_ok_existing:
  assumes ok: "sched_ok s" and f: "find_pid s p = Some temp"
  shows "sched_ok (s\<lparr>processes := remove1 temp (current s # processes s), current := temp,
            ptbr := Some temp\<rparr>)"
proof -
  from f have t: "temp \<in> set (processes s)" by (simp add: find_pid_Some)
  with ok have ne: "temp \<noteq> current s" by (auto simp: sched_ok_iff)
  then have r: "remove1 temp (current s # processes s) = current s # remove1 temp (processes s)"
    by simp
  from ok have d: "distinct (processes s)" by (simp add: sched_ok_iff)
  then have set: "set (remove1 temp (processes s)) = set (processes s) - {temp}"
    by (rule set_remove1_eq)
  show ?thesis
    using ok t ne d unfolding r by (auto simp: sched_ok_iff set)
qed

lemma sched_ok_fork:
  assumes ok: "sched_ok s"
  shows "sched_ok (fork_state c J p s)"
  using ok by (auto simp: sched_ok_iff fork_state_def less_Suc_eq)

text \<open>
  Claim C9. From a state that satisfies the scheduling invariant, every call of
  \<^verbatim>\<open>switch_process\<close> returns, in the branch for an existing target as in the fork
  branch, with \<^verbatim>\<open>ptbr\<close> equal to the page table of the new current process, the
  outgoing process exactly once on the ready list and the new current process not on
  it; every process object is then either current or on the ready list and never both,
  and the scheduling invariant holds again. This holds for all contents \<open>J\<close> of the
  storage that the fork allocates.
\<close>

theorem switch_process_sched:
  assumes sh: "shape c s" and fr: "frames_ok c s" and ok: "sched_ok s"
  shows "\<exists>s'. switch_process c J p s = Inr s' \<and>
           ptbr s' = Some (current s') \<and>
           count_list (processes s') (current s) = 1 \<and>
           count_list (processes s') (current s') = 0 \<and>
           (\<forall>a<length (heap s'). (a = current s') \<noteq> (a \<in> set (processes s'))) \<and>
           sched_ok s'"
proof (cases "find_pid s p")
  case None
  let ?s' = "fork_state c J p s"
  from ok have pt: "ptbr s = Some (current s)" and a: "current s < length (heap s)"
    by (simp_all add: sched_ok_iff)
  have run: "switch_process c J p s = Inr ?s'"
    using sh fr pt a None by (rule switch_process_fork)
  have ok': "sched_ok ?s'" using ok by (rule sched_ok_fork)
  have once: "count_list (processes ?s') (current s) = 1"
    using ok by (simp add: fork_state_def sched_ok_iff)
  from ok' have "count_list (processes ?s') (current ?s') = 0"
    "ptbr ?s' = Some (current ?s')"
    "\<forall>a<length (heap ?s'). (a = current ?s') \<noteq> (a \<in> set (processes ?s'))"
    by (auto simp: sched_ok_iff)
  with run ok' once show ?thesis by blast
next
  case (Some temp)
  let ?s' = "s\<lparr>processes := remove1 temp (current s # processes s), current := temp,
            ptbr := Some temp\<rparr>"
  have run: "switch_process c J p s = Inr ?s'"
    using Some by (rule switch_process_existing)
  have ok': "sched_ok ?s'" using ok Some by (rule sched_ok_existing)
  from Some have t: "temp \<in> set (processes s)" by (simp add: find_pid_Some)
  with ok have ne: "temp \<noteq> current s" by (auto simp: sched_ok_iff)
  have once: "count_list (processes ?s') (current s) = 1"
    using ok ne by (simp add: sched_ok_iff)
  from ok' have "count_list (processes ?s') (current ?s') = 0"
    "ptbr ?s' = Some (current ?s')"
    "\<forall>a<length (heap ?s'). (a = current ?s') \<noteq> (a \<in> set (processes ?s'))"
    by (auto simp: sched_ok_iff)
  with run ok' once show ?thesis by blast
qed

text \<open>
  Claim C10, as amended. When \<^verbatim>\<open>switch_process\<close> is called with the pid of the
  current process and no process on the ready list has that pid, the fork branch runs: a
  new process object with the same pid is created and made current, and the previous
  current process is put on the ready list; the call is not a no-op. This holds for all
  contents \<open>J\<close> of the storage that the fork allocates.
\<close>

theorem switch_to_own_pid_forks:
  assumes sh: "shape c s" and fr: "frames_ok c s" and ok: "sched_ok s"
    and own: "p = pid (heap s ! current s)"
    and fresh: "\<forall>a\<in>set (processes s). pid (heap s ! a) \<noteq> p"
  shows "\<exists>s'. switch_process c J p s = Inr s' \<and>
           length (heap s') = Suc (length (heap s)) \<and>
           current s' = length (heap s) \<and>
           current s' \<noteq> current s \<and>
           pid (heap s' ! current s') = p \<and>
           pid (heap s' ! current s) = p \<and>
           processes s' = current s # processes s \<and>
           s' \<noteq> s"
proof -
  let ?s' = "fork_state c J p s"
  from ok have pt: "ptbr s = Some (current s)" and a: "current s < length (heap s)"
    by (simp_all add: sched_ok_iff)
  from fresh have nf: "find_pid s p = None" by (simp add: find_pid_None)
  have run: "switch_process c J p s = Inr ?s'"
    using sh fr pt a nf by (rule switch_process_fork)
  have "current ?s' \<noteq> current s" using a by (simp add: fork_state_def)
  then have "?s' \<noteq> s" by auto
  moreover have "pid (heap ?s' ! current ?s') = p"
    by (simp add: fork_state_def nth_append)
  moreover have "pid (heap ?s' ! current s) = p"
    using a own by (simp add: fork_state_def nth_append)
  ultimately show ?thesis
    using run a by (intro exI [of _ ?s']) (simp add: fork_state_def)
qed

text \<open>
  A call of \<^verbatim>\<open>switch_process\<close> always changes the current process, whether it forks
  or switches to a process on the ready list.
\<close>

lemma switch_process_changes_state:
  assumes sh: "shape c s" and fr: "frames_ok c s" and ok: "sched_ok s"
  shows "\<exists>s'. switch_process c J p s = Inr s' \<and> current s' \<noteq> current s \<and> s' \<noteq> s"
proof (cases "find_pid s p")
  case None
  from ok have pt: "ptbr s = Some (current s)" and a: "current s < length (heap s)"
    by (simp_all add: sched_ok_iff)
  have run: "switch_process c J p s = Inr (fork_state c J p s)"
    using sh fr pt a None by (rule switch_process_fork)
  have "current (fork_state c J p s) \<noteq> current s" using a by (simp add: fork_state_def)
  with run show ?thesis by auto
next
  case (Some temp)
  let ?s' = "s\<lparr>processes := remove1 temp (current s # processes s), current := temp,
            ptbr := Some temp\<rparr>"
  have run: "switch_process c J p s = Inr ?s'"
    using Some by (rule switch_process_existing)
  from Some have "temp \<in> set (processes s)" by (simp add: find_pid_Some)
  with ok have ne: "current ?s' \<noteq> current s" by (auto simp: sched_ok_iff)
  then have "?s' \<noteq> s" by (metis ne)
  with run ne show ?thesis by (intro exI [of _ ?s']) (intro conjI)
qed

subsection \<open>The fork branch, entry by entry\<close>

lemma zero_pte_simps [simp]:
  "\<not> valid zero_pte" "\<not> writable zero_pte" "pfn zero_pte = 0" "\<not> private' zero_pte"
  by (simp_all add: zero_pte_def)

text \<open>
  A child entry is written in all four fields where the parent's entry is valid, and is
  left as \<^verbatim>\<open>malloc\<close> returned it where the parent's entry is not.
\<close>

lemma child_pte_valid: "valid e \<Longrightarrow> child_pte t e = cow e"
  by (cases e, cases t) (simp add: child_pte_def cow_def)

lemma child_pte_invalid: "\<not> valid e \<Longrightarrow> child_pte t e = t"
  by (simp add: child_pte_def)

lemma cow_fields [simp]: "valid (cow e) = valid e" "pfn (cow e) = pfn e"
  by (simp_all add: cow_def)

lemma bump_slots_nth:
  "F < length mc \<Longrightarrow>
   bump_slots mc ds ! F = mc ! F + of_nat (sum_list (map (slot_refs F) ds))"
  by (induction ds arbitrary: mc)
     (simp_all add: slot_refs_def pd_refs_def bump_nth split: option.splits)

lemma heap_fork_state:
  "length (heap (fork_state c J p s)) = Suc (length (heap s))"
  "current s < length (heap s) \<Longrightarrow>
     pt_of (fork_state c J p s) (current s) = cow_pt (pt_of s (current s))"
  "pt_of (fork_state c J p s) (length (heap s)) = child_pt c J (pt_of s (current s))"
  "b < length (heap s) \<Longrightarrow> b \<noteq> current s \<Longrightarrow> pt_of (fork_state c J p s) b = pt_of s b"
  "pid (heap (fork_state c J p s) ! length (heap s)) = p"
  by (simp_all add: fork_state_def pt_of_def nth_append nth_list_update)

lemma pid_fork_state:
  "b < length (heap s) \<Longrightarrow> pid (heap (fork_state c J p s) ! b) = pid (heap s ! b)"
  by (cases "b = current s") (simp_all add: fork_state_def nth_append)

lemma entry_fork_parent:
  assumes sh: "shape c s" and a: "current s < length (heap s)"
    and i: "i < NR_PTES_PER_PAGE c" and j: "j < NR_PTES_PER_PAGE c"
  shows "entry (fork_state c J p s) (current s) i j = map_option cow (entry s (current s) i j)"
proof -
  have wf: "wf_pt c (pt_of s (current s))" using sh a by (rule shape_wf_pt)
  have len: "length (outer_ptes (pt_of s (current s))) = NR_PTES_PER_PAGE c"
    using wf by (rule wf_pt_len)
  show ?thesis
    using i j len wf_pt_pd [OF wf i]
    by (auto simp: entry_def heap_fork_state(2) [OF a] cow_pt_def cow_pd_def split: option.splits)
qed

lemma child_pd_nth:
  "length (ptes pd) = NR_PTES_PER_PAGE c \<Longrightarrow> j < NR_PTES_PER_PAGE c \<Longrightarrow>
   ptes (child_pd c g pd) ! j = child_pte (g j) (ptes pd ! j)"
  by (simp add: child_pd_def malloc_pte_directory_def)

lemma entry_fork_child:
  assumes sh: "shape c s" and a: "current s < length (heap s)"
    and i: "i < NR_PTES_PER_PAGE c" and j: "j < NR_PTES_PER_PAGE c"
  shows "entry (fork_state c J p s) (length (heap s)) i j =
           (case entry s (current s) i j of
              None \<Rightarrow> (case junk_slots J i of None \<Rightarrow> None | Some d \<Rightarrow> Some (ptes d ! j))
            | Some e \<Rightarrow> Some (child_pte (junk_ptes J i j) e))"
proof -
  have wf: "wf_pt c (pt_of s (current s))" using sh a by (rule shape_wf_pt)
  show ?thesis
    using i j wf_pt_pd [OF wf i]
    by (auto simp: entry_def heap_fork_state(3) child_pt_def child_slot_def child_pd_nth
          split: option.splits)
qed

text \<open>
  What the fork branch establishes, for all contents \<open>J\<close> of the storage it allocates: a
  child is created and made current; for every parent entry that was valid and writable,
  both copies are non-writable and private afterwards, with the same frame; a valid
  entry that was not writable is the same in both; and the counter of every frame goes up
  by the number of valid parent entries that map it, which is exactly 1 for a frame
  that the parent maps through one entry. When, in addition, the allocated storage holds
  no valid entry and no directory pointer other than NULL, the valid entries of the child
  are exactly those of the parent before the fork.
\<close>

lemma fork_entries:
  assumes sh: "shape c s" and fr: "frames_ok c s"
    and pt: "ptbr s = Some (current s)" and a: "current s < length (heap s)"
    and fresh: "\<forall>a\<in>set (processes s). pid (heap s ! a) \<noteq> p"
  shows "\<exists>s'. switch_process c J p s = Inr s' \<and>
           current s' = length (heap s) \<and> pid (heap s' ! current s') = p \<and>
           (\<forall>i<NR_PTES_PER_PAGE c. \<forall>j<NR_PTES_PER_PAGE c. \<forall>e.
              entry s (current s) i j = Some e \<and> valid e \<and> writable e \<longrightarrow>
                entry s' (current s) i j = Some (e\<lparr>writable := False, private' := True\<rparr>) \<and>
                entry s' (current s') i j = Some (e\<lparr>writable := False, private' := True\<rparr>)) \<and>
           (\<forall>i<NR_PTES_PER_PAGE c. \<forall>j<NR_PTES_PER_PAGE c. \<forall>e.
              entry s (current s) i j = Some e \<and> valid e \<and> \<not> writable e \<longrightarrow>
                entry s' (current s) i j = Some e \<and> entry s' (current s') i j = Some e) \<and>
           (\<forall>F<NR_PAGEFRAMES c.
              mapcounts s' ! F = mapcounts s ! F + of_nat (pt_refs F (pt_of s (current s)))) \<and>
           (\<forall>F<NR_PAGEFRAMES c. pt_refs F (pt_of s (current s)) = 1 \<longrightarrow>
              mapcounts s' ! F = mapcounts s ! F + 1) \<and>
           (clean c J \<longrightarrow>
              (\<forall>i<NR_PTES_PER_PAGE c. \<forall>j<NR_PTES_PER_PAGE c.
                 mapped s' (current s') i j = mapped s (current s) i j))"
proof -
  let ?s' = "fork_state c J p s"
  let ?N = "NR_PTES_PER_PAGE c"
  from fresh have nf: "find_pid s p = None" by (simp add: find_pid_None)
  have run: "switch_process c J p s = Inr ?s'"
    using sh fr pt a nf by (rule switch_process_fork)
  have cur: "current ?s' = length (heap s)" by (simp add: fork_state_def)
  have pid: "pid (heap ?s' ! current ?s') = p" by (simp add: cur heap_fork_state)
  have m: "mapped ?s' (current ?s') i j = mapped s (current s) i j"
    if "clean c J" "i < ?N" "j < ?N" for i j
  proof -
    from that have "junk_slots J i = None" "\<not> valid (junk_ptes J i j)"
      by (auto simp: clean_def clean_pd_def list_all_iff)
    then show ?thesis
      using that(2,3)
      by (auto simp: mapped_def cur entry_fork_child [OF sh a] child_pte_valid child_pte_invalid
            split: option.splits)
  qed
  have w: "entry ?s' (current s) i j = Some (e\<lparr>writable := False, private' := True\<rparr>) \<and>
           entry ?s' (current ?s') i j = Some (e\<lparr>writable := False, private' := True\<rparr>)"
    if "i < ?N" "j < ?N" "entry s (current s) i j = Some e" "valid e" "writable e" for i j e
    using that
    by (simp add: cur entry_fork_child [OF sh a] entry_fork_parent [OF sh a] child_pte_valid cow_def)
  have r: "entry ?s' (current s) i j = Some e \<and> entry ?s' (current ?s') i j = Some e"
    if "i < ?N" "j < ?N" "entry s (current s) i j = Some e" "valid e" "\<not> writable e" for i j e
    using that
    by (simp add: cur entry_fork_child [OF sh a] entry_fork_parent [OF sh a] child_pte_valid cow_def)
  have mcl: "length (mapcounts s) = NR_PAGEFRAMES c" using sh by (simp add: shape_def)
  have mc: "mapcounts ?s' ! F = mapcounts s ! F + of_nat (pt_refs F (pt_of s (current s)))"
    if "F < NR_PAGEFRAMES c" for F
    using that mcl by (simp add: fork_state_def bump_slots_nth pt_refs_def)
  have one: "mapcounts ?s' ! F = mapcounts s ! F + 1"
    if "F < NR_PAGEFRAMES c" "pt_refs F (pt_of s (current s)) = 1" for F
    using mc [OF that(1)] that(2) by simp
  show ?thesis
    using run cur pid m w r mc one by (intro exI [of _ ?s']) blast
qed

text \<open>
  Claim C5. The child's valid entries do not mirror the parent's when the storage that
  \<^verbatim>\<open>malloc\<close> returns for the child is not zero. In \<open>ex_alloc\<close> the current process
  maps page 0 and has no valid entry for page 1. \<^verbatim>\<open>switch_process(1)\<close> forks; the
  directory allocated for the child (line 207) is written at entry 0 only, so with the
  allocator behaving as \<open>stale_junk\<close> the child's entry for page 1 stays as allocated. After
  the call the child maps page 1 to frame 3, which the parent does not map and whose
  counter is 0.
\<close>

theorem fork_keeps_stale_entry:
  "alloc_page cfg zero_junk 0 3 (init_state cfg) = Inr (0, ex_alloc) \<and>
   switch_process cfg stale_junk 1 ex_alloc = Inr ex_stale \<and>
   mapped ex_alloc (current ex_alloc) 0 1 = None \<and>
   mapped ex_stale (current ex_stale) 0 0 = Some 0 \<and>
   mapped ex_stale (current ex_stale) 0 1 = Some 3 \<and>
   mapcounts ex_stale ! 3 = 0"
  by code_simp

section \<open>Counting mappings\<close>

lemma filter_update_count:
  "j < length xs \<Longrightarrow>
   length (filter P (xs[j := y])) + (if P (xs ! j) then 1 else 0) =
   length (filter P xs) + (if P y then 1 else (0::nat))"
proof (induction xs arbitrary: j)
  case Nil
  then show ?case by simp
next
  case (Cons x xs)
  then show ?case by (cases j) auto
qed

lemma sum_list_map_update:
  fixes f :: "'a \<Rightarrow> nat"
  shows "i < length xs \<Longrightarrow>
   sum_list (map f (xs[i := y])) + f (xs ! i) = sum_list (map f xs) + f y"
proof (induction xs arbitrary: i)
  case Nil
  then show ?case by simp
next
  case (Cons x xs)
  then show ?case by (cases i) auto
qed

lemma pd_refs_store_pte:
  "j < length (ptes pd) \<Longrightarrow>
   pd_refs F (store_pte j e pd) + hit F (ptes pd ! j) = pd_refs F pd + hit F e"
  using filter_update_count [of j "ptes pd" "\<lambda>e. valid e \<and> pfn e = F" e]
  by (simp add: pd_refs_def store_pte_def hit_def)

lemma pt_refs_update:
  "i < length (outer_ptes pt) \<Longrightarrow>
   pt_refs F (pt\<lparr>outer_ptes := (outer_ptes pt)[i := Some pd]\<rparr>) + slot_refs F (outer_ptes pt ! i) =
   pt_refs F pt + pd_refs F pd"
  using sum_list_map_update [of i "outer_ptes pt" "slot_refs F" "Some pd"]
  by (simp add: pt_refs_def slot_refs_def)

lemma refs_mapcounts_update [simp]: "refs (s\<lparr>mapcounts := m\<rparr>) F = refs s F"
  by (simp add: refs_def)

lemma refs_store_pd:
  assumes ok: "sched_ok s" and i: "i < length (outer_ptes (pt_of s (current s)))"
  shows "refs (store_pd (current s) i pd s) F + slot_refs F (outer_ptes (pt_of s (current s)) ! i) =
         refs s F + pd_refs F pd"
proof -
  let ?a = "current s" and ?s' = "store_pd (current s) i pd s"
  from ok have a: "?a < length (heap s)" and notin: "?a \<notin> set (processes s)"
    by (simp_all add: sched_ok_iff)
  have rest: "sum_list (map (\<lambda>b. pt_refs F (pt_of ?s' b)) (processes s)) =
        sum_list (map (\<lambda>b. pt_refs F (pt_of s b)) (processes s))"
    using notin a by (intro arg_cong [where f = sum_list] map_cong) (auto simp: pt_of_store_pd)
  have cur: "pt_of ?s' ?a =
      (pt_of s ?a)\<lparr>outer_ptes := (outer_ptes (pt_of s ?a))[i := Some pd]\<rparr>"
    using a by (simp add: pt_of_store_pd)
  have "refs ?s' F =
      pt_refs F (pt_of ?s' ?a) + sum_list (map (\<lambda>b. pt_refs F (pt_of ?s' b)) (processes s))"
    by (simp add: refs_def)
  then have "refs ?s' F =
      pt_refs F ((pt_of s ?a)\<lparr>outer_ptes := (outer_ptes (pt_of s ?a))[i := Some pd]\<rparr>) +
      sum_list (map (\<lambda>b. pt_refs F (pt_of s b)) (processes s))"
    by (simp only: rest cur)
  moreover have "refs s F =
      pt_refs F (pt_of s ?a) + sum_list (map (\<lambda>b. pt_refs F (pt_of s b)) (processes s))"
    by (simp add: refs_def)
  ultimately show ?thesis
    using pt_refs_update [OF i, of F pd] by simp
qed

lemma refs_store_pte:
  assumes ok: "sched_ok s" and i: "i < length (outer_ptes (pt_of s (current s)))"
    and pd: "outer_ptes (pt_of s (current s)) ! i = Some pd" and j: "j < length (ptes pd)"
  shows "refs (store_pd (current s) i (store_pte j e pd) s) F + hit F (ptes pd ! j) =
         refs s F + hit F e"
  using refs_store_pd [OF ok i, of "store_pte j e pd" F] pd_refs_store_pte [OF j, of F e] pd
  by (simp add: slot_refs_def)

lemma conserved_iff:
  "conserved c s \<longleftrightarrow> (\<forall>F<NR_PAGEFRAMES c. unat (mapcounts s ! F) = refs s F)"
  by (auto simp: conserved_def list_all_iff)

lemma shape_store_pd:
  assumes sh: "shape c s" and a: "a < length (heap s)"
    and len: "length (ptes pd) = NR_PTES_PER_PAGE c"
  shows "shape c (store_pd a i pd s)"
proof -
  have wf: "wf_pt c (pt_of s a)" using sh a by (rule shape_wf_pt)
  have "wf_pt c ((pt_of s a)\<lparr>outer_ptes := (outer_ptes (pt_of s a))[i := Some pd]\<rparr>)"
    using wf len
    by (auto simp: wf_pt_def wf_pd_def list_all_iff split: option.splits
          dest!: set_update_subset_insert [THEN subsetD])
  then show ?thesis
    using sh a
    by (auto simp: shape_def store_pd_def store_pt_def list_all_length nth_list_update pt_of_def)
qed

lemma shape_mapcounts_update:
  "shape c s \<Longrightarrow> length m = length (mapcounts s) \<Longrightarrow> shape c (s\<lparr>mapcounts := m\<rparr>)"
  by (simp add: shape_def)

lemma frames_ok_mapcounts_update [simp]: "frames_ok c (s\<lparr>mapcounts := m\<rparr>) = frames_ok c s"
  by (simp add: frames_ok_def)

lemma sched_ok_mapcounts_update [simp]: "sched_ok (s\<lparr>mapcounts := m\<rparr>) = sched_ok s"
  by (simp add: sched_ok_def)

lemma sched_ok_store_pd [simp]: "sched_ok (store_pd a i pd s) = sched_ok s"
  by (simp add: sched_ok_def)

lemma frames_ok_store_pd:
  assumes fr: "frames_ok c s" and a: "a < length (heap s)"
    and rng: "pd_in_range (NR_PAGEFRAMES c) pd"
  shows "frames_ok c (store_pd a i pd s)"
proof -
  have "frames_pt c (pt_of s a)"
    using fr a by (simp add: frames_ok_def pt_of_def list_all_length)
  moreover have "frames_pd c pd"
    using rng by (simp add: frames_pd_def pd_in_range_def list_all_iff)
  ultimately have "frames_pt c ((pt_of s a)\<lparr>outer_ptes := (outer_ptes (pt_of s a))[i := Some pd]\<rparr>)"
    by (auto simp: frames_pt_def list_all_iff split: option.splits
          dest!: set_update_subset_insert [THEN subsetD])
  then show ?thesis
    using fr a
    by (auto simp: frames_ok_def store_pd_def store_pt_def list_all_length nth_list_update pt_of_def)
qed

lemma pd_in_range_store_pte:
  "pd_in_range n pd \<Longrightarrow> (valid e \<longrightarrow> pfn e < n) \<Longrightarrow> pd_in_range n (store_pte j e pd)"
  by (auto simp: pd_in_range_def store_pte_def dest: set_update_subset_insert [THEN subsetD])

section \<open>The invariant is preserved\<close>

lemma first_free:
  "(\<forall>k<n. mc ! k \<noteq> (0 :: u32)) \<or> (\<exists>f<n. mc ! f = 0 \<and> (\<forall>k<f. mc ! k \<noteq> 0))"
proof (cases "\<exists>k<n. mc ! k = 0")
  case False
  then show ?thesis by auto
next
  case True
  define f where "f = (LEAST k. k < n \<and> mc ! k = 0)"
  from True have "\<exists>k. k < n \<and> mc ! k = 0" by blast
  then have f: "f < n \<and> mc ! f = 0"
    unfolding f_def by (rule LeastI_ex)
  have "mc ! k \<noteq> 0" if "k < f" for k
  proof
    assume "mc ! k = 0"
    with that f have "k < n \<and> mc ! k = 0" by simp
    then have "f \<le> k" unfolding f_def by (rule Least_le)
    with that show False by simp
  qed
  with f show ?thesis by blast
qed

lemma vm_inv_update_entry:
  assumes sh: "shape c s" and fr: "frames_ok c s" and ok: "sched_ok s"
    and i: "i < NR_PTES_PER_PAGE c" and pd: "outer_ptes (pt_of s (current s)) ! i = Some pd"
    and j: "j < NR_PTES_PER_PAGE c"
    and e: "valid e \<longrightarrow> pfn e < NR_PAGEFRAMES c"
    and m: "length m = NR_PAGEFRAMES c"
    and cons: "\<forall>F<NR_PAGEFRAMES c. unat (m ! F) + hit F (ptes pd ! j) = refs s F + hit F e"
  shows "vm_inv c ((store_pd (current s) i (store_pte j e pd) s)\<lparr>mapcounts := m\<rparr>)"
proof -
  let ?a = "current s"
  let ?s' = "store_pd ?a i (store_pte j e pd) s"
  from ok have a: "?a < length (heap s)" by (simp add: sched_ok_iff)
  have wf: "wf_pt c (pt_of s ?a)" using sh a by (rule shape_wf_pt)
  have len: "length (outer_ptes (pt_of s ?a)) = NR_PTES_PER_PAGE c" using wf by (rule wf_pt_len)
  have pdl: "length (ptes pd) = NR_PTES_PER_PAGE c" using wf i pd by (rule wf_pt_pd)
  have i': "i < length (outer_ptes (pt_of s ?a))" using i len by simp
  have j': "j < length (ptes pd)" using j pdl by simp
  have "shape c ?s'"
    using sh a by (rule shape_store_pd) (simp add: store_pte_def pdl)
  then have 1: "shape c (?s'\<lparr>mapcounts := m\<rparr>)"
    using m by (simp add: shape_def)
  have "pd_in_range (NR_PAGEFRAMES c) pd" using fr a i' pd by (rule frames_ok_slot)
  then have "pd_in_range (NR_PAGEFRAMES c) (store_pte j e pd)"
    using e by (rule pd_in_range_store_pte)
  with fr a have 2: "frames_ok c ?s'" by (rule frames_ok_store_pd)
  have 3: "sched_ok ?s'" using ok by simp
  have 4: "conserved c (?s'\<lparr>mapcounts := m\<rparr>)"
    unfolding conserved_iff
  proof (intro allI impI)
    fix F assume F: "F < NR_PAGEFRAMES c"
    have "refs ?s' F + hit F (ptes pd ! j) = refs s F + hit F e"
      using ok i' pd j' by (rule refs_store_pte)
    moreover from cons F have "unat (m ! F) + hit F (ptes pd ! j) = refs s F + hit F e"
      by blast
    ultimately show "unat (mapcounts (?s'\<lparr>mapcounts := m\<rparr>) ! F) = refs (?s'\<lparr>mapcounts := m\<rparr>) F"
      by simp
  qed
  from 1 2 3 4 show ?thesis by (simp add: vm_inv_def)
qed

lemma refs_pos:
  assumes ok: "sched_ok s" and i: "i < length (outer_ptes (pt_of s (current s)))"
    and pd: "outer_ptes (pt_of s (current s)) ! i = Some pd" and j: "j < length (ptes pd)"
    and v: "valid (ptes pd ! j)"
  shows "1 \<le> refs s (pfn (ptes pd ! j))"
  using refs_store_pte [OF ok i pd j, of zero_pte "pfn (ptes pd ! j)"] v
  by (simp add: hit_def)

lemma frames_ok_entry:
  assumes fr: "frames_ok c s" and a: "a < length (heap s)"
    and i: "i < length (outer_ptes (pt_of s a))" and pd: "outer_ptes (pt_of s a) ! i = Some pd"
    and j: "j < length (ptes pd)" and v: "valid (ptes pd ! j)"
  shows "pfn (ptes pd ! j) < NR_PAGEFRAMES c"
  using frames_ok_slot [OF fr a i pd] j v by (auto simp: pd_in_range_def)

lemma free_page_inv:
  assumes inv: "vm_inv c s" and e: "pte_at c s (current s) vpn = Some e" and v: "valid e"
  shows "\<exists>s'. free_page c vpn s = Inr s' \<and> vm_inv c s'"
proof -
  let ?i = "unat vpn div NR_PTES_PER_PAGE c"
  let ?j = "unat vpn mod NR_PTES_PER_PAGE c"
  let ?mc = "mapcounts s"
  from inv have sh: "shape c s" and fr: "frames_ok c s" and ok: "sched_ok s"
    and co: "conserved c s" by (simp_all add: vm_inv_def)
  from ok have pt: "ptbr s = Some (current s)" and a: "current s < length (heap s)"
    by (simp_all add: sched_ok_iff)
  from locate_entry [OF sh pt a e] obtain pd where
    loc: "locate c vpn s = Inr (current s, ?i, ?j, pd)"
    and pd: "outer_ptes (pt_of s (current s)) ! ?i = Some pd"
    and epd: "ptes pd ! ?j = e"
    and i: "?i < length (outer_ptes (pt_of s (current s)))"
    and j: "?j < length (ptes pd)"
    by blast
  have wf: "wf_pt c (pt_of s (current s))" using sh a by (rule shape_wf_pt)
  have iN: "?i < NR_PTES_PER_PAGE c" using i wf_pt_len [OF wf] by simp
  have jN: "?j < NR_PTES_PER_PAGE c" using j wf_pt_pd [OF wf iN pd] by simp
  have f: "pfn e < NR_PAGEFRAMES c"
    using frames_ok_entry [OF fr a i pd j] epd v by simp
  have mcl: "length ?mc = NR_PAGEFRAMES c" using sh by (simp add: shape_def)
  let ?e' = "e\<lparr>valid := False, writable := False, pfn := 0\<rparr>"
  let ?m = "?mc[pfn e := ?mc ! pfn e - 1]"
  let ?s' = "(store_pd (current s) ?i (store_pte ?j ?e' pd) s)\<lparr>mapcounts := ?m\<rparr>"
  have res: "free_page c vpn s = Inr ?s'"
    using loc epd f mcl by (simp add: free_page_def Let_def store_pd_mapcounts_update)
  have pos: "1 \<le> refs s (pfn e)"
    using refs_pos [OF ok i pd j] epd v by simp
  have cons: "\<forall>F<NR_PAGEFRAMES c. unat (?m ! F) + hit F (ptes pd ! ?j) = refs s F + hit F ?e'"
  proof (intro allI impI)
    fix F assume F: "F < NR_PAGEFRAMES c"
    from co F have c: "unat (?mc ! F) = refs s F" by (simp add: conserved_iff)
    show "unat (?m ! F) + hit F (ptes pd ! ?j) = refs s F + hit F ?e'"
    proof (cases "F = pfn e")
      case True
      with c pos have "?mc ! pfn e \<noteq> 0" by (auto simp: unat_eq_0)
      then have "unat (?mc ! pfn e - 1) = unat (?mc ! pfn e) - 1" by (rule unat_minus_one)
      with True c pos f mcl v epd show ?thesis by (simp add: hit_def)
    next
      case False
      with c epd show ?thesis by (simp add: hit_def)
    qed
  qed
  have "vm_inv c ?s'"
    using sh fr ok iN pd jN _ _ cons by (rule vm_inv_update_entry) (simp_all add: mcl)
  with res show ?thesis by blast
qed


lemma handle_page_fault_inv:
  assumes inv: "vm_inv c s"
    and pre: "rw = RW_READ c \<or> (\<exists>e. pte_at c s (current s) vpn = Some e \<and> valid e)"
  shows "\<exists>r s'. handle_page_fault c vpn rw s = Inr (r, s') \<and> vm_inv c s'"
proof (cases "rw = RW_READ c")
  case True
  then have "handle_page_fault c vpn rw s = Inr (False, s)"
    by (simp add: handle_page_fault_def)
  with inv show ?thesis by blast
next
  case rw: False
  with pre obtain e where e: "pte_at c s (current s) vpn = Some e" and v: "valid e"
    by blast
  let ?i = "unat vpn div NR_PTES_PER_PAGE c"
  let ?j = "unat vpn mod NR_PTES_PER_PAGE c"
  let ?mc = "mapcounts s"
  from inv have sh: "shape c s" and fr: "frames_ok c s" and ok: "sched_ok s"
    and co: "conserved c s" by (simp_all add: vm_inv_def)
  from ok have pt: "ptbr s = Some (current s)" and a: "current s < length (heap s)"
    by (simp_all add: sched_ok_iff)
  from locate_entry [OF sh pt a e] obtain pd where
    loc: "locate c vpn s = Inr (current s, ?i, ?j, pd)"
    and pd: "outer_ptes (pt_of s (current s)) ! ?i = Some pd"
    and epd: "ptes pd ! ?j = e"
    and i: "?i < length (outer_ptes (pt_of s (current s)))"
    and j: "?j < length (ptes pd)"
    by blast
  have wf: "wf_pt c (pt_of s (current s))" using sh a by (rule shape_wf_pt)
  have iN: "?i < NR_PTES_PER_PAGE c" using i wf_pt_len [OF wf] by simp
  have jN: "?j < NR_PTES_PER_PAGE c" using j wf_pt_pd [OF wf iN pd] by simp
  have f: "pfn e < NR_PAGEFRAMES c"
    using frames_ok_entry [OF fr a i pd j] epd v by simp
  have mcl: "length ?mc = NR_PAGEFRAMES c" using sh by (simp add: shape_def)
  have pos: "1 \<le> refs s (pfn e)"
    using refs_pos [OF ok i pd j] epd v by simp
  have cF: "unat (?mc ! F) = refs s F" if "F < NR_PAGEFRAMES c" for F
    using co that by (simp add: conserved_iff)
  show ?thesis
  proof (cases "\<not> writable e \<and> private' e")
    case False
    then have "handle_page_fault c vpn rw s = Inr (False, s)"
      using rw loc epd by (auto simp: handle_page_fault_def)
    with inv show ?thesis by blast
  next
    case cow: True
    show ?thesis
    proof (cases "?mc ! pfn e = 1")
      case True
      let ?e' = "e\<lparr>writable := True, private' := False\<rparr>"
      let ?s' = "(store_pd (current s) ?i (store_pte ?j ?e' pd) s)\<lparr>mapcounts := ?mc\<rparr>"
      have "handle_page_fault c vpn rw s =
          Inr (True, store_pd (current s) ?i (store_pte ?j ?e' pd) s)"
        using rw loc epd cow f mcl True by (simp add: handle_page_fault_def)
      moreover have "?s' = store_pd (current s) ?i (store_pte ?j ?e' pd) s"
        by (simp add: store_pd_mapcounts_update [symmetric])
      ultimately have res: "handle_page_fault c vpn rw s = Inr (True, ?s')" by simp
      have cons: "\<forall>F<NR_PAGEFRAMES c.
          unat (?mc ! F) + hit F (ptes pd ! ?j) = refs s F + hit F ?e'"
        using cF epd by (simp add: hit_def)
      have "vm_inv c ?s'"
        using sh fr ok iN pd jN _ _ cons by (rule vm_inv_update_entry) (use f mcl in simp_all)
      with res show ?thesis by blast
    next
      case ne1: False
      from first_free [of "NR_PAGEFRAMES c" ?mc] show ?thesis
      proof
        assume "\<forall>k<NR_PAGEFRAMES c. ?mc ! k \<noteq> 0"
        then have "scan_frames (NR_PAGEFRAMES c) ?mc 0 = NR_PAGEFRAMES c"
          by (intro scan_frames_none) auto
        then have "handle_page_fault c vpn rw s = Inr (False, s)"
          using rw loc epd cow f mcl ne1 by (simp add: handle_page_fault_def Let_def)
        with inv show ?thesis by blast
      next
        assume "\<exists>g<NR_PAGEFRAMES c. ?mc ! g = 0 \<and> (\<forall>k<g. ?mc ! k \<noteq> 0)"
        then obtain g where g: "g < NR_PAGEFRAMES c" and g0: "?mc ! g = 0"
          and least: "\<forall>k<g. ?mc ! k \<noteq> 0" by blast
        have sc: "scan_frames (NR_PAGEFRAMES c) ?mc 0 = g"
          using g g0 least by (intro scan_frames_found) auto
        from cF [OF f] pos have nz: "?mc ! pfn e \<noteq> 0" by (auto simp: unat_eq_0)
        with g0 have neq: "g \<noteq> pfn e" by auto
        let ?e' = "e\<lparr>pfn := g, writable := True, private' := False\<rparr>"
        let ?m = "?mc[pfn e := ?mc ! pfn e - 1, g := 1]"
        let ?s' = "(store_pd (current s) ?i (store_pte ?j ?e' pd) s)\<lparr>mapcounts := ?m\<rparr>"
        have res: "handle_page_fault c vpn rw s = Inr (True, ?s')"
          using rw loc epd cow f mcl ne1 sc g g0 neq
          by (simp add: handle_page_fault_def Let_def store_pd_mapcounts_update)
        have dec: "unat (?mc ! pfn e - 1) = unat (?mc ! pfn e) - 1"
          using nz by (rule unat_minus_one)
        have cons: "\<forall>F<NR_PAGEFRAMES c.
            unat (?m ! F) + hit F (ptes pd ! ?j) = refs s F + hit F ?e'"
        proof (intro allI impI)
          fix F assume F: "F < NR_PAGEFRAMES c"
          consider "F = pfn e" | "F = g" | "F \<noteq> pfn e" "F \<noteq> g" by blast
          then show "unat (?m ! F) + hit F (ptes pd ! ?j) = refs s F + hit F ?e'"
          proof cases
            case 1
            with cF [OF f] pos dec neq f mcl v epd show ?thesis by (simp add: hit_def)
          next
            case 2
            with cF [OF g] g0 neq g mcl v epd show ?thesis by (simp add: hit_def)
          next
            case 3
            with cF [OF F] epd show ?thesis by (simp add: hit_def)
          qed
        qed
        have "vm_inv c ?s'"
          using sh fr ok iN pd jN _ _ cons by (rule vm_inv_update_entry) (use g mcl in simp_all)
        with res show ?thesis by blast
      qed
    qed
  qed
qed


lemma clean_pd_iff: "clean_pd c g \<longleftrightarrow> (\<forall>j<NR_PTES_PER_PAGE c. \<not> valid (g j))"
  by (auto simp: clean_pd_def list_all_iff)

lemma clean_iff:
  "clean c J \<longleftrightarrow>
     (\<forall>i<NR_PTES_PER_PAGE c. junk_slots J i = None \<and> clean_pd c (junk_ptes J i))"
  by (auto simp: clean_def list_all_iff)

lemma pd_refs_malloc: "clean_pd c g \<Longrightarrow> pd_refs F (malloc_pte_directory c g) = 0"
  by (auto simp: pd_refs_def malloc_pte_directory_def clean_pd_iff filter_empty_conv)

lemma pd_in_range_malloc: "clean_pd c g \<Longrightarrow> pd_in_range n (malloc_pte_directory c g)"
  by (auto simp: pd_in_range_def malloc_pte_directory_def clean_pd_iff)

lemma alloc_page_inv:
  assumes inv: "vm_inv c s"
    and i: "unat vpn div NR_PTES_PER_PAGE c < NR_PTES_PER_PAGE c"
    and unmapped: "mapped s (current s) (unat vpn div NR_PTES_PER_PAGE c)
                     (unat vpn mod NR_PTES_PER_PAGE c) = None"
    and fresh: "outer_ptes (pt_of s (current s)) ! (unat vpn div NR_PTES_PER_PAGE c) = None
                  \<longrightarrow> clean_pd c (junk_ptes J (unat vpn div NR_PTES_PER_PAGE c))"
  shows "\<exists>r s'. alloc_page c J vpn rw s = Inr (r, s') \<and> vm_inv c s'"
proof -
  let ?N = "NR_PTES_PER_PAGE c"
  let ?i = "unat vpn div ?N"
  let ?j = "unat vpn mod ?N"
  let ?a = "current s"
  let ?mc = "mapcounts s"
  let ?slot = "outer_ptes (pt_of s ?a) ! ?i"
  let ?pd = "case ?slot of None \<Rightarrow> malloc_pte_directory c (junk_ptes J ?i) | Some d \<Rightarrow> d"
  let ?s1 = "store_pd ?a ?i ?pd s"
  from inv have sh: "shape c s" and fr: "frames_ok c s" and ok: "sched_ok s"
    and co: "conserved c s" by (simp_all add: vm_inv_def)
  from ok have pt: "ptbr s = Some ?a" and a: "?a < length (heap s)"
    by (simp_all add: sched_ok_iff)
  have wf: "wf_pt c (pt_of s ?a)" using sh a by (rule shape_wf_pt)
  have len: "length (outer_ptes (pt_of s ?a)) = ?N" using wf by (rule wf_pt_len)
  have i': "?i < length (outer_ptes (pt_of s ?a))" using i len by simp
  have N: "0 < ?N" using i by simp
  have j: "?j < ?N" using N by simp
  have pdlen: "length (ptes ?pd) = ?N"
    using wf_pt_pd [OF wf i] by (simp add: malloc_pte_directory_def split: option.splits)
  have mcl: "length ?mc = NR_PAGEFRAMES c" using sh by (simp add: shape_def)
  have rng: "pd_in_range (NR_PAGEFRAMES c) ?pd"
    using frames_ok_slot [OF fr a i'] fresh by (simp add: pd_in_range_malloc split: option.splits)
  have old: "\<not> valid (ptes ?pd ! ?j)"
    using unmapped j fresh
    by (auto simp: mapped_def entry_def malloc_pte_directory_def clean_pd_iff
          split: option.splits if_splits)
  have sh1: "shape c ?s1" using sh a pdlen by (rule shape_store_pd)
  have fr1: "frames_ok c ?s1" using fr a rng by (rule frames_ok_store_pd)
  have ok1: "sched_ok ?s1" using ok by simp
  have refs1: "refs ?s1 F = refs s F" for F
    using refs_store_pd [OF ok i', of ?pd F] fresh
    by (simp add: slot_refs_def pd_refs_malloc split: option.splits)
  have co1: "conserved c ?s1"
    using co by (simp add: conserved_iff refs1)
  have inv1: "vm_inv c ?s1"
    using sh1 fr1 ok1 co1 by (simp add: vm_inv_def)
  have pd1: "outer_ptes (pt_of ?s1 (current ?s1)) ! ?i = Some ?pd"
    using a i' by (simp add: pt_of_store_pd)
  from first_free [of "NR_PAGEFRAMES c" ?mc] show ?thesis
  proof
    assume "\<forall>k<NR_PAGEFRAMES c. ?mc ! k \<noteq> 0"
    then have "scan_frames (NR_PAGEFRAMES c) ?mc 0 = NR_PAGEFRAMES c"
      by (intro scan_frames_none) auto
    then have "alloc_page c J vpn rw s = Inr (- 1, ?s1)"
      using pt a i by (simp add: alloc_page_def Let_def)
    with inv1 show ?thesis by blast
  next
    assume "\<exists>f<NR_PAGEFRAMES c. ?mc ! f = 0 \<and> (\<forall>k<f. ?mc ! k \<noteq> 0)"
    then obtain f where f: "f < NR_PAGEFRAMES c" and f0: "?mc ! f = 0"
      and least: "\<forall>k<f. ?mc ! k \<noteq> 0" by blast
    have sc: "scan_frames (NR_PAGEFRAMES c) ?mc 0 = f"
      using f f0 least by (intro scan_frames_found) auto
    let ?e = "(ptes ?pd ! ?j)\<lparr>valid := True, writable := (rw = 3), pfn := f, private' := False\<rparr>"
    let ?m = "?mc[f := 1]"
    let ?s' = "(store_pd (current ?s1) ?i (store_pte ?j ?e ?pd) ?s1)\<lparr>mapcounts := ?m\<rparr>"
    have res: "alloc_page c J vpn rw s = Inr (of_nat f, ?s')"
      using pt a i f f0 sc by (simp add: alloc_page_def Let_def store_pd_mapcounts_update)
    have cons: "\<forall>F<NR_PAGEFRAMES c. unat (?m ! F) + hit F (ptes ?pd ! ?j) = refs ?s1 F + hit F ?e"
    proof (intro allI impI)
      fix F assume F: "F < NR_PAGEFRAMES c"
      from co F have c: "unat (?mc ! F) = refs s F" by (simp add: conserved_iff)
      show "unat (?m ! F) + hit F (ptes ?pd ! ?j) = refs ?s1 F + hit F ?e"
      proof (cases "F = f")
        case True
        with c f0 f mcl old show ?thesis by (simp add: hit_def refs1)
      next
        case False
        with c old show ?thesis by (simp add: hit_def refs1)
      qed
    qed
    have "vm_inv c ?s'"
      using sh1 fr1 ok1 i pd1 j _ _ cons by (rule vm_inv_update_entry) (use f mcl in simp_all)
    with res show ?thesis by blast
  qed
qed


lemma hit_cow [simp]: "hit F (cow e) = hit F e"
  by (simp add: hit_def)

lemma hit_child:
  assumes "\<not> valid t"
  shows "hit F (child_pte t e) = hit F e"
proof (cases "valid e")
  case True
  then show ?thesis by (simp add: child_pte_valid)
next
  case False
  with assms show ?thesis by (simp add: child_pte_invalid hit_def)
qed

lemma length_filter_sum:
  "length (filter P xs) = sum_list (map (\<lambda>e. if P e then 1 else (0::nat)) xs)"
  by (induction xs) simp_all

lemma pd_refs_hit: "pd_refs F pd = sum_list (map (hit F) (ptes pd))"
  by (simp add: pd_refs_def length_filter_sum hit_def [abs_def])

lemma pd_refs_cow_pd [simp]: "pd_refs F (cow_pd pd) = pd_refs F pd"
  by (simp add: pd_refs_hit cow_pd_def o_def)

lemma sum_hit_child:
  "length ts = length es \<Longrightarrow> \<forall>t\<in>set ts. \<not> valid t \<Longrightarrow>
   sum_list (map (hit F) (map2 child_pte ts es)) = sum_list (map (hit F) es)"
  by (induction ts es rule: list_induct2) (simp_all add: hit_child)

lemma pd_refs_child_pd:
  assumes len: "length (ptes pd) = NR_PTES_PER_PAGE c" and cl: "clean_pd c g"
  shows "pd_refs F (child_pd c g pd) = pd_refs F pd"
proof -
  have "sum_list (map (hit F) (map2 child_pte (map g [0..<NR_PTES_PER_PAGE c]) (ptes pd))) =
        sum_list (map (hit F) (ptes pd))"
    using len cl by (intro sum_hit_child) (auto simp: clean_pd_iff)
  then show ?thesis
    by (simp add: pd_refs_hit child_pd_def malloc_pte_directory_def)
qed

lemma pt_refs_cow_pt [simp]: "pt_refs F (cow_pt pt) = pt_refs F pt"
proof -
  have "slot_refs F (map_option cow_pd d) = slot_refs F d" for d
    by (cases d) (simp_all add: slot_refs_def)
  then show ?thesis
    by (simp add: pt_refs_def cow_pt_def o_def)
qed

lemma child_slot_cases:
  assumes wf: "wf_pt c pt" and cl: "clean c J" and i: "i < NR_PTES_PER_PAGE c"
  shows "(outer_ptes pt ! i = None \<and> child_slot c J i (outer_ptes pt ! i) = None) \<or>
         (\<exists>pd. outer_ptes pt ! i = Some pd \<and> length (ptes pd) = NR_PTES_PER_PAGE c \<and>
               clean_pd c (junk_ptes J i) \<and>
               child_slot c J i (outer_ptes pt ! i) = Some (child_pd c (junk_ptes J i) pd))"
proof (cases "outer_ptes pt ! i")
  case None
  with cl i show ?thesis by (simp add: child_slot_def clean_iff)
next
  case (Some pd)
  with wf_pt_pd [OF wf i Some] cl i show ?thesis by (simp add: child_slot_def clean_iff)
qed

lemma pt_refs_child_pt:
  assumes wf: "wf_pt c pt" and cl: "clean c J"
  shows "pt_refs F (child_pt c J pt) = pt_refs F pt"
proof -
  let ?N = "NR_PTES_PER_PAGE c"
  have len: "length (outer_ptes pt) = ?N" using wf by (rule wf_pt_len)
  have "slot_refs F (child_slot c J i (outer_ptes pt ! i)) = slot_refs F (outer_ptes pt ! i)"
    if "i < ?N" for i
    using child_slot_cases [OF wf cl that]
    by (auto simp: slot_refs_def pd_refs_child_pd)
  then have eq: "sum_list (map (\<lambda>i. slot_refs F (child_slot c J i (outer_ptes pt ! i))) [0..<?N]) =
             sum_list (map (\<lambda>i. slot_refs F (outer_ptes pt ! i)) [0..<?N])"
    by (intro arg_cong [where f = sum_list] map_cong) auto
  have "map (\<lambda>i. slot_refs F (outer_ptes pt ! i)) [0..<?N] = map (slot_refs F) (outer_ptes pt)"
    using len by (intro nth_equalityI) simp_all
  with eq show ?thesis
    by (simp add: pt_refs_def child_pt_def o_def)
qed

lemma wf_pt_cow_pt: "wf_pt c pt \<Longrightarrow> wf_pt c (cow_pt pt)"
  by (auto simp: wf_pt_def wf_pd_def cow_pt_def cow_pd_def list_all_iff split: option.splits)

lemma wf_pt_child_pt:
  assumes wf: "wf_pt c pt" and cl: "clean c J"
  shows "wf_pt c (child_pt c J pt)"
proof -
  have "case child_slot c J i (outer_ptes pt ! i) of None \<Rightarrow> True | Some pd \<Rightarrow> wf_pd c pd"
    if "i < NR_PTES_PER_PAGE c" for i
    using child_slot_cases [OF wf cl that]
    by (auto simp: wf_pd_def child_pd_def malloc_pte_directory_def)
  then show ?thesis
    by (auto simp: wf_pt_def child_pt_def list_all_iff)
qed

lemma frames_pt_cow_pt: "frames_pt c pt \<Longrightarrow> frames_pt c (cow_pt pt)"
  by (auto simp: frames_pt_def frames_pd_def cow_pt_def cow_pd_def list_all_iff
        split: option.splits)

lemma frames_pd_child_pd:
  assumes len: "length (ptes pd) = NR_PTES_PER_PAGE c" and cl: "clean_pd c g"
    and fr: "frames_pd c pd"
  shows "frames_pd c (child_pd c g pd)"
proof -
  have "valid (child_pte (g j) (ptes pd ! j)) \<longrightarrow>
        pfn (child_pte (g j) (ptes pd ! j)) < NR_PAGEFRAMES c" if "j < NR_PTES_PER_PAGE c" for j
  proof (cases "valid (ptes pd ! j)")
    case True
    with fr len that show ?thesis
      by (simp add: child_pte_valid frames_pd_def list_all_length)
  next
    case False
    with cl that show ?thesis
      by (simp add: child_pte_invalid clean_pd_iff)
  qed
  then show ?thesis
    using len by (simp add: frames_pd_def list_all_length child_pd_def malloc_pte_directory_def)
qed

lemma frames_pt_child_pt:
  assumes wf: "wf_pt c pt" and fr: "frames_pt c pt" and cl: "clean c J"
  shows "frames_pt c (child_pt c J pt)"
proof -
  have len: "length (outer_ptes pt) = NR_PTES_PER_PAGE c" using wf by (rule wf_pt_len)
  have "case child_slot c J i (outer_ptes pt ! i) of None \<Rightarrow> True | Some pd \<Rightarrow> frames_pd c pd"
    if "i < NR_PTES_PER_PAGE c" for i
  proof -
    have "frames_pd c pd" if "outer_ptes pt ! i = Some pd" for pd
      using fr \<open>i < NR_PTES_PER_PAGE c\<close> len that
      by (auto simp: frames_pt_def list_all_length split: option.splits)
    then show ?thesis
      using child_slot_cases [OF wf cl that] by (auto simp: frames_pd_child_pd)
  qed
  then show ?thesis
    by (auto simp: frames_pt_def child_pt_def list_all_iff)
qed

lemma vm_inv_existing:
  assumes inv: "vm_inv c s" and f: "find_pid s p = Some temp"
  shows "vm_inv c (s\<lparr>processes := remove1 temp (current s # processes s), current := temp,
            ptbr := Some temp\<rparr>)"
proof -
  let ?s' = "s\<lparr>processes := remove1 temp (current s # processes s), current := temp,
            ptbr := Some temp\<rparr>"
  from inv have sh: "shape c s" and fr: "frames_ok c s" and ok: "sched_ok s"
    and co: "conserved c s" by (simp_all add: vm_inv_def)
  from f have t: "temp \<in> set (current s # processes s)" by (simp add: find_pid_Some)
  have "refs ?s' F = refs s F" for F
    using sum_list_map_remove1 [OF t, of "\<lambda>a. pt_refs F (pt_of s a)"]
    by (simp add: refs_def pt_of_def)
  then have "conserved c ?s'"
    using co by (simp add: conserved_iff)
  moreover have "shape c ?s'" using sh by (simp add: shape_def)
  moreover have "frames_ok c ?s'" using fr by (simp add: frames_ok_def)
  moreover have "sched_ok ?s'" using ok f by (rule sched_ok_existing)
  ultimately show ?thesis by (simp add: vm_inv_def)
qed

lemma vm_inv_fork:
  assumes inv: "vm_inv c s"
    and room: "\<forall>F<NR_PAGEFRAMES c. refs s F + pt_refs F (pt_of s (current s)) < 2 ^ 32"
    and cl: "clean c J"
  shows "vm_inv c (fork_state c J p s)"
proof -
  let ?s' = "fork_state c J p s"
  let ?a = "current s"
  let ?pt = "pt_of s ?a"
  from inv have sh: "shape c s" and fr: "frames_ok c s" and ok: "sched_ok s"
    and co: "conserved c s" by (simp_all add: vm_inv_def)
  from ok have a: "?a < length (heap s)" and notin: "?a \<notin> set (processes s)"
    and below: "\<forall>b\<in>set (processes s). b < length (heap s)"
    by (simp_all add: sched_ok_iff)
  have wf: "wf_pt c ?pt" using sh a by (rule shape_wf_pt)
  have frp: "frames_pt c ?pt"
    using fr a by (simp add: frames_ok_def pt_of_def list_all_length)
  have mcl: "length (mapcounts s) = NR_PAGEFRAMES c" using sh by (simp add: shape_def)
  have 1: "shape c ?s'"
    using sh a wf_pt_cow_pt [OF wf] wf_pt_child_pt [OF wf cl]
    by (auto simp: shape_def fork_state_def list_all_iff pt_of_def
          dest!: set_update_subset_insert [THEN subsetD])
  have 2: "frames_ok c ?s'"
    using fr a frames_pt_cow_pt [OF frp] frames_pt_child_pt [OF wf frp cl]
    by (auto simp: frames_ok_def fork_state_def list_all_iff pt_of_def
          dest!: set_update_subset_insert [THEN subsetD])
  have 3: "sched_ok ?s'" using ok by (rule sched_ok_fork)
  have other: "pt_of ?s' b = pt_of s b" if "b \<in> set (processes s)" for b
    using that notin below by (intro heap_fork_state(4)) auto
  have rest: "sum_list (map (\<lambda>b. pt_refs F (pt_of ?s' b)) (processes s)) =
        sum_list (map (\<lambda>b. pt_refs F (pt_of s b)) (processes s))" for F
    by (intro arg_cong [where f = sum_list] map_cong) (simp_all add: other)
  have refs': "refs ?s' F = refs s F + pt_refs F ?pt" for F
  proof -
    have "refs ?s' F =
        pt_refs F (pt_of ?s' (length (heap s))) + (pt_refs F (pt_of ?s' ?a) +
        sum_list (map (\<lambda>b. pt_refs F (pt_of ?s' b)) (processes s)))"
      by (simp add: refs_def fork_state_def)
    then show ?thesis
      by (simp only: rest heap_fork_state(2) [OF a] heap_fork_state(3))
         (simp add: refs_def pt_refs_child_pt [OF wf cl])
  qed
  have 4: "conserved c ?s'"
    unfolding conserved_iff
  proof (intro allI impI)
    fix F assume F: "F < NR_PAGEFRAMES c"
    let ?k = "pt_refs F ?pt"
    from co F have c: "unat (mapcounts s ! F) = refs s F" by (simp add: conserved_iff)
    from room F c have lt: "unat (mapcounts s ! F) + ?k < 2 ^ 32" by simp
    then have k: "unat (of_nat ?k :: u32) = ?k"
      by (simp add: unat_of_nat)
    have "mapcounts ?s' ! F = mapcounts s ! F + of_nat ?k"
      using F mcl by (simp add: fork_state_def bump_slots_nth pt_refs_def)
    moreover have "unat (mapcounts s ! F + of_nat ?k) = unat (mapcounts s ! F) + ?k"
      using lt k by (simp add: unat_add_lem [THEN iffD1])
    ultimately show "unat (mapcounts ?s' ! F) = refs ?s' F"
      using c by (simp add: refs')
  qed
  from 1 2 3 4 show ?thesis by (simp add: vm_inv_def)
qed

section \<open>Conservation of the reference counts\<close>

lemma vm_inv_init: "vm_inv c (init_state c)"
proof -
  have "pt_refs F \<lparr>outer_ptes = replicate (NR_PTES_PER_PAGE c) None\<rparr> = 0" for F
    by (simp add: pt_refs_def slot_refs_def sum_list_replicate)
  then have "conserved c (init_state c)"
    by (simp add: conserved_iff init_state_def refs_def pt_of_def)
  moreover have "shape c (init_state c)"
    by (simp add: shape_def init_state_def wf_pt_def list_all_iff)
  moreover have "frames_ok c (init_state c)"
    by (simp add: frames_ok_def init_state_def frames_pt_def list_all_iff)
  moreover have "sched_ok (init_state c)"
    by (simp add: sched_ok_def init_state_def)
  ultimately show ?thesis by (simp add: vm_inv_def)
qed

text \<open>
  Claim C1, as amended. Let the machine satisfy its invariant: arrays of the declared
  sizes, valid entries naming existing frames, the scheduling invariant, and for every
  frame a counter equal to the number of valid entries, over the current process and
  the processes on the ready list, that map it. Then each operation returns and
  establishes the invariant again, counters equal to the number of mappings included,
  provided that:

  \<^item> \<^verbatim>\<open>alloc_page\<close> is called for a page number in the range the two-level table
    addresses, the page is not valid in the current process, and, when the directory for
    the page has to be allocated, the storage that \<^verbatim>\<open>malloc\<close> returns for it holds no
    valid entry;
  \<^item> \<^verbatim>\<open>free_page\<close> is called for a page that is valid (its stated precondition);
  \<^item> \<^verbatim>\<open>handle_page_fault\<close> is called for a read access or for a page that is valid;
  \<^item> a fork by \<^verbatim>\<open>switch_process\<close> does not take a 32-bit counter past its largest
    value, and the storage that \<^verbatim>\<open>malloc\<close> returns for the child holds no valid
    entry and no directory pointer other than NULL.
\<close>

theorem conservation_preserved:
  assumes inv: "vm_inv c s"
  shows
    "(\<forall>vpn rw. unat vpn div NR_PTES_PER_PAGE c < NR_PTES_PER_PAGE c \<and>
         mapped s (current s) (unat vpn div NR_PTES_PER_PAGE c)
           (unat vpn mod NR_PTES_PER_PAGE c) = None \<and>
         (outer_ptes (pt_of s (current s)) ! (unat vpn div NR_PTES_PER_PAGE c) = None
            \<longrightarrow> clean_pd c (junk_ptes J (unat vpn div NR_PTES_PER_PAGE c))) \<longrightarrow>
         (\<exists>r s'. alloc_page c J vpn rw s = Inr (r, s') \<and> vm_inv c s' \<and> conserved c s')) \<and>
     (\<forall>vpn e. pte_at c s (current s) vpn = Some e \<and> valid e \<longrightarrow>
         (\<exists>s'. free_page c vpn s = Inr s' \<and> vm_inv c s' \<and> conserved c s')) \<and>
     (\<forall>vpn rw. rw = RW_READ c \<or> (\<exists>e. pte_at c s (current s) vpn = Some e \<and> valid e) \<longrightarrow>
         (\<exists>r s'. handle_page_fault c vpn rw s = Inr (r, s') \<and> vm_inv c s' \<and> conserved c s')) \<and>
     (\<forall>p. (find_pid s p = None \<longrightarrow>
              (\<forall>F<NR_PAGEFRAMES c. refs s F + pt_refs F (pt_of s (current s)) < 2 ^ 32) \<and>
              clean c J) \<longrightarrow>
         (\<exists>s'. switch_process c J p s = Inr s' \<and> vm_inv c s' \<and> conserved c s'))"
proof (intro conjI allI impI)
  fix vpn rw :: u32
  assume "unat vpn div NR_PTES_PER_PAGE c < NR_PTES_PER_PAGE c \<and>
         mapped s (current s) (unat vpn div NR_PTES_PER_PAGE c)
           (unat vpn mod NR_PTES_PER_PAGE c) = None \<and>
         (outer_ptes (pt_of s (current s)) ! (unat vpn div NR_PTES_PER_PAGE c) = None
            \<longrightarrow> clean_pd c (junk_ptes J (unat vpn div NR_PTES_PER_PAGE c)))"
  then have "\<exists>r s'. alloc_page c J vpn rw s = Inr (r, s') \<and> vm_inv c s'"
    using inv by (intro alloc_page_inv) simp_all
  then show "\<exists>r s'. alloc_page c J vpn rw s = Inr (r, s') \<and> vm_inv c s' \<and> conserved c s'"
    by (auto simp: vm_inv_def)
next
  fix vpn :: u32 and e
  assume "pte_at c s (current s) vpn = Some e \<and> valid e"
  then have "\<exists>s'. free_page c vpn s = Inr s' \<and> vm_inv c s'"
    using inv by (intro free_page_inv [where e = e]) simp_all
  then show "\<exists>s'. free_page c vpn s = Inr s' \<and> vm_inv c s' \<and> conserved c s'"
    by (auto simp: vm_inv_def)
next
  fix vpn rw :: u32
  assume "rw = RW_READ c \<or> (\<exists>e. pte_at c s (current s) vpn = Some e \<and> valid e)"
  with inv have "\<exists>r s'. handle_page_fault c vpn rw s = Inr (r, s') \<and> vm_inv c s'"
    by (rule handle_page_fault_inv)
  then show "\<exists>r s'. handle_page_fault c vpn rw s = Inr (r, s') \<and> vm_inv c s' \<and> conserved c s'"
    by (auto simp: vm_inv_def)
next
  fix p
  assume room: "find_pid s p = None \<longrightarrow>
      (\<forall>F<NR_PAGEFRAMES c. refs s F + pt_refs F (pt_of s (current s)) < 2 ^ 32) \<and> clean c J"
  from inv have sh: "shape c s" and fr: "frames_ok c s" and ok: "sched_ok s"
    by (simp_all add: vm_inv_def)
  from ok have pt: "ptbr s = Some (current s)" and a: "current s < length (heap s)"
    by (simp_all add: sched_ok_iff)
  have "\<exists>s'. switch_process c J p s = Inr s' \<and> vm_inv c s'"
  proof (cases "find_pid s p")
    case None
    with room have "vm_inv c (fork_state c J p s)"
      using inv by (intro vm_inv_fork) simp_all
    moreover have "switch_process c J p s = Inr (fork_state c J p s)"
      using sh fr pt a None by (rule switch_process_fork)
    ultimately show ?thesis by blast
  next
    case (Some temp)
    then show ?thesis
      using vm_inv_existing [OF inv Some] switch_process_existing [OF Some, of c J] by blast
  qed
  then show "\<exists>s'. switch_process c J p s = Inr s' \<and> vm_inv c s' \<and> conserved c s'"
    by (auto simp: vm_inv_def)
qed

theorem conservation_preserved_witness:
  "(\<exists>r s'. alloc_page cfg zero_junk 2 3 ex_shared = Inr (r, s') \<and> vm_inv cfg s' \<and>
        conserved cfg s') \<and>
   (\<exists>s'. free_page cfg 0 ex_shared = Inr s' \<and> vm_inv cfg s' \<and> conserved cfg s') \<and>
   (\<exists>r s'. handle_page_fault cfg 0 2 ex_shared = Inr (r, s') \<and> vm_inv cfg s' \<and> conserved cfg s') \<and>
   (\<exists>s'. switch_process cfg zero_junk 0 ex_shared = Inr s' \<and> vm_inv cfg s' \<and>
        conserved cfg s') \<and>
   (\<exists>s'. switch_process cfg zero_junk 7 ex_shared = Inr s' \<and> vm_inv cfg s' \<and>
        conserved cfg s')"
proof -
  have inv: "vm_inv cfg ex_shared" by code_simp
  note T = conservation_preserved [OF inv, of zero_junk]
  have h1: "unat (2 :: u32) div NR_PTES_PER_PAGE cfg < NR_PTES_PER_PAGE cfg \<and>
         mapped ex_shared (current ex_shared) (unat (2 :: u32) div NR_PTES_PER_PAGE cfg)
           (unat (2 :: u32) mod NR_PTES_PER_PAGE cfg) = None \<and>
         (outer_ptes (pt_of ex_shared (current ex_shared)) !
            (unat (2 :: u32) div NR_PTES_PER_PAGE cfg) = None
            \<longrightarrow> clean_pd cfg (junk_ptes zero_junk (unat (2 :: u32) div NR_PTES_PER_PAGE cfg)))"
    by code_simp
  have h2: "pte_at cfg ex_shared (current ex_shared) 0 = Some (cow_pte 0) \<and> valid (cow_pte 0)"
    by code_simp
  then have h2': "(2 :: u32) = RW_READ cfg \<or>
      (\<exists>e. pte_at cfg ex_shared (current ex_shared) 0 = Some e \<and> valid e)"
    by blast
  have "find_pid ex_shared 0 \<noteq> None" by code_simp
  then have h3: "find_pid ex_shared 0 = None \<longrightarrow>
      (\<forall>F<NR_PAGEFRAMES cfg.
         refs ex_shared F + pt_refs F (pt_of ex_shared (current ex_shared)) < 2 ^ 32) \<and>
      clean cfg zero_junk"
    by auto
  have small: "list_all
      (\<lambda>F. refs ex_shared F + pt_refs F (pt_of ex_shared (current ex_shared)) < 4)
      [0..<NR_PAGEFRAMES cfg]"
    by code_simp
  have cl: "clean cfg zero_junk"
    by code_simp
  have h4: "find_pid ex_shared 7 = None \<longrightarrow>
      (\<forall>F<NR_PAGEFRAMES cfg.
         refs ex_shared F + pt_refs F (pt_of ex_shared (current ex_shared)) < 2 ^ 32) \<and>
      clean cfg zero_junk"
  proof (intro allI impI conjI)
    fix F assume "F < NR_PAGEFRAMES cfg"
    with small have "refs ex_shared F + pt_refs F (pt_of ex_shared (current ex_shared)) < 4"
      by (simp add: list_all_iff)
    then show "refs ex_shared F + pt_refs F (pt_of ex_shared (current ex_shared)) < 2 ^ 32"
      by simp
  next
    show "clean cfg zero_junk" by (rule cl)
  qed
  note a = T [THEN conjunct1, THEN spec, THEN spec, THEN mp, OF h1, of 3]
  note b = T [THEN conjunct2, THEN conjunct1, rule_format, OF h2]
  note c = T [THEN conjunct2, THEN conjunct2, THEN conjunct1, rule_format, OF h2']
  note d = T [THEN conjunct2, THEN conjunct2, THEN conjunct2, THEN spec, THEN mp, OF h3]
  note e = T [THEN conjunct2, THEN conjunct2, THEN conjunct2, THEN spec, THEN mp, OF h4]
  from a b c d e show ?thesis by (intro conjI)
qed

section \<open>The claims on the example runs\<close>

text \<open>
  The example states are reached from the initial state by calls of the four
  operations.
\<close>


lemma example_runs:
  "run cfg zero_junk [Alloc 0 3] (init_state cfg) = Inr ex_alloc"
  "run cfg zero_junk [Alloc 0 3, Switch 1] (init_state cfg) = Inr ex_shared"
  "run cfg zero_junk [Alloc 0 3, Switch 1, Free 0] (init_state cfg) = Inr ex_freed"
  "run cfg zero_junk [Alloc 0 3, Switch 1, Free 0, Switch 0] (init_state cfg) = Inr ex_sole"
  "run cfg zero_junk [Alloc 0 3, Alloc 0 3] (init_state cfg) = Inr ex_leak"
  "run cfg zero_junk [Switch 0] (init_state cfg) = Inr ex_self"
  "run cfg zero_junk [Alloc 0 3, Alloc 1 3, Switch 1, Switch 2, Fault 0 2, Fault 1 2, Switch 1]
     (init_state cfg) = Inr ex_full"
  "run cfg stale_junk [Switch 1] ex_alloc = Inr ex_stale"
  by code_simp+

theorem cow_sole_owner_witness:
  "\<exists>s'. handle_page_fault cfg 0 2 ex_sole = Inr (True, s') \<and>
        pte_at cfg s' (current ex_sole) 0 = Some ((cow_pte 0)\<lparr>writable := True, private' := False\<rparr>) \<and>
        mapcounts s' = mapcounts ex_sole"
proof -
  have "\<exists>s'. handle_page_fault cfg 0 2 ex_sole = Inr (True, s') \<and>
           pte_at cfg s' (current ex_sole) 0 = Some ((cow_pte 0)\<lparr>writable := True, private' := False\<rparr>) \<and>
           mapcounts s' = mapcounts ex_sole \<and>
           (\<forall>b i j. (b, i, j) \<noteq>
               (current ex_sole, unat (0 :: u32) div NR_PTES_PER_PAGE cfg,
                unat (0 :: u32) mod NR_PTES_PER_PAGE cfg)
              \<longrightarrow> entry s' b i j = entry ex_sole b i j)"
    by (rule cow_sole_owner) code_simp+
  then show ?thesis by blast
qed

theorem cow_shared_witness:
  "(\<exists>s'. handle_page_fault cfg 0 2 ex_shared = Inr (True, s') \<and>
        pte_at cfg s' (current ex_shared) 0 = Some (rw_pte 1) \<and>
        mapcounts s' = [1, 1, 0, 0]) \<and>
   handle_page_fault cfg 0 2 ex_full = Inr (False, ex_full)"
proof (rule conjI)
  have sh: "shape cfg ex_shared" and pt: "ptbr ex_shared = Some (current ex_shared)"
    and a: "current ex_shared < length (heap ex_shared)" and rw: "(2 :: u32) \<noteq> RW_READ cfg"
    and e: "pte_at cfg ex_shared (current ex_shared) 0 = Some (cow_pte 0)"
    and v: "valid (cow_pte 0)" and w: "\<not> writable (cow_pte 0)" and p: "private' (cow_pte 0)"
    and f: "pfn (cow_pte 0) < NR_PAGEFRAMES cfg"
    and cnt: "2 \<le> unat (mapcounts ex_shared ! pfn (cow_pte 0))"
    by code_simp+
  have free: "1 < NR_PAGEFRAMES cfg \<and> mapcounts ex_shared ! 1 = 0 \<and>
      (\<forall>k<1. mapcounts ex_shared ! k \<noteq> 0)"
    by (simp add: ex_shared_def cfg_def)
  from cow_shared [OF sh pt a rw e v w p f cnt] free
  obtain s' where "handle_page_fault cfg 0 2 ex_shared = Inr (True, s')"
    "pte_at cfg s' (current ex_shared) 0 =
       Some ((cow_pte 0)\<lparr>pfn := 1, writable := True, private' := False\<rparr>)"
    "mapcounts s' =
       (mapcounts ex_shared)[pfn (cow_pte 0) := mapcounts ex_shared ! pfn (cow_pte 0) - 1, 1 := 1]"
    by blast
  then show "\<exists>s'. handle_page_fault cfg 0 2 ex_shared = Inr (True, s') \<and>
        pte_at cfg s' (current ex_shared) 0 = Some (rw_pte 1) \<and>
        mapcounts s' = [1, 1, 0, 0]"
    by (simp add: ex_shared_def cow_pte_def rw_pte_def)
next
  have sh: "shape cfg ex_full" and pt: "ptbr ex_full = Some (current ex_full)"
    and a: "current ex_full < length (heap ex_full)" and rw: "(2 :: u32) \<noteq> RW_READ cfg"
    and e: "pte_at cfg ex_full (current ex_full) 0 = Some (cow_pte 0)"
    and v: "valid (cow_pte 0)" and w: "\<not> writable (cow_pte 0)" and p: "private' (cow_pte 0)"
    and f: "pfn (cow_pte 0) < NR_PAGEFRAMES cfg"
    and cnt: "2 \<le> unat (mapcounts ex_full ! pfn (cow_pte 0))"
    by code_simp+
  have "list_all (\<lambda>k. mapcounts ex_full ! k \<noteq> 0) [0..<NR_PAGEFRAMES cfg]"
    by code_simp
  then have full: "\<forall>k<NR_PAGEFRAMES cfg. mapcounts ex_full ! k \<noteq> 0"
    by (simp add: list_all_iff)
  from cow_shared [OF sh pt a rw e v w p f cnt] full
  show "handle_page_fault cfg 0 2 ex_full = Inr (False, ex_full)"
    by (elim conjE) (erule mp)
qed

theorem free_page_post_witness:
  "\<exists>s'. free_page cfg 0 ex_shared = Inr s' \<and>
        pte_at cfg s' (current ex_shared) 0 =
          Some \<lparr>valid = False, writable = False, pfn = 0, private' = private' (cow_pte 0)\<rparr> \<and>
        mapcounts s' =
          (mapcounts ex_shared)[pfn (cow_pte 0) := mapcounts ex_shared ! pfn (cow_pte 0) - 1]"
proof -
  have "\<exists>s'. free_page cfg 0 ex_shared = Inr s' \<and>
           pte_at cfg s' (current ex_shared) 0 =
             Some \<lparr>valid = False, writable = False, pfn = 0, private' = private' (cow_pte 0)\<rparr> \<and>
           mapcounts s' =
             (mapcounts ex_shared)[pfn (cow_pte 0) := mapcounts ex_shared ! pfn (cow_pte 0) - 1] \<and>
           (\<forall>b i j. (b, i, j) \<noteq>
               (current ex_shared, unat (0 :: u32) div NR_PTES_PER_PAGE cfg,
                unat (0 :: u32) mod NR_PTES_PER_PAGE cfg)
              \<longrightarrow> entry s' b i j = entry ex_shared b i j)"
    by (rule free_page_post) code_simp+
  then show ?thesis by blast
qed

text \<open>
  Claim C6 as stated fails: the child of the example run frees page 0, whose entry is
  marked private; the entry is invalid afterwards, and still marked private.
\<close>

theorem free_page_keeps_private:
  "pte_at cfg ex_shared (current ex_shared) 0 =
     Some \<lparr>valid = True, writable = False, pfn = 0, private' = True\<rparr> \<and>
   free_page cfg 0 ex_shared = Inr ex_freed \<and>
   pte_at cfg ex_freed (current ex_shared) 0 =
     Some \<lparr>valid = False, writable = False, pfn = 0, private' = True\<rparr>"
  by code_simp

text \<open>
  Claim C8 fails on the code for an invalid entry. In the initial state the directory
  of page 0 has never been allocated, and a write fault on page 0 dereferences the null
  directory pointer. In the state \<open>ex_freed\<close> the entry of page 0 is invalid and still
  marked private; a write fault on page 0 reports success and makes the invalid entry
  writable.
\<close>

theorem page_fault_on_invalid_entry:
  "handle_page_fault cfg 0 2 (init_state cfg) = Inl BadPointer \<and>
   pte_at cfg ex_freed (current ex_freed) 0 = Some freed_pte \<and>
   handle_page_fault cfg 0 2 ex_freed =
     Inr (True, ex_freed\<lparr>heap := [ex_proc 0 (cow_pte 0) zero_pte,
             ex_proc 1 \<lparr>valid = False, writable = True, pfn = 0, private' = False\<rparr> zero_pte]\<rparr>)"
  by code_simp

theorem switch_process_sched_witness:
  "(\<exists>s'. switch_process cfg stale_junk 1 ex_alloc = Inr s' \<and>
           ptbr s' = Some (current s') \<and>
           count_list (processes s') (current ex_alloc) = 1 \<and>
           count_list (processes s') (current s') = 0 \<and>
           (\<forall>a<length (heap s'). (a = current s') \<noteq> (a \<in> set (processes s'))) \<and>
           sched_ok s') \<and>
   (\<exists>s'. switch_process cfg zero_junk 0 ex_freed = Inr s' \<and>
           ptbr s' = Some (current s') \<and>
           count_list (processes s') (current ex_freed) = 1 \<and>
           count_list (processes s') (current s') = 0 \<and>
           (\<forall>a<length (heap s'). (a = current s') \<noteq> (a \<in> set (processes s'))) \<and>
           sched_ok s')"
proof (rule conjI)
  show "\<exists>s'. switch_process cfg stale_junk 1 ex_alloc = Inr s' \<and>
           ptbr s' = Some (current s') \<and>
           count_list (processes s') (current ex_alloc) = 1 \<and>
           count_list (processes s') (current s') = 0 \<and>
           (\<forall>a<length (heap s'). (a = current s') \<noteq> (a \<in> set (processes s'))) \<and>
           sched_ok s'"
    by (rule switch_process_sched) code_simp+
  show "\<exists>s'. switch_process cfg zero_junk 0 ex_freed = Inr s' \<and>
           ptbr s' = Some (current s') \<and>
           count_list (processes s') (current ex_freed) = 1 \<and>
           count_list (processes s') (current s') = 0 \<and>
           (\<forall>a<length (heap s'). (a = current s') \<noteq> (a \<in> set (processes s'))) \<and>
           sched_ok s'"
    by (rule switch_process_sched) code_simp+
qed

theorem switch_to_own_pid_forks_witness:
  "\<exists>s'. switch_process cfg stale_junk 0 (init_state cfg) = Inr s' \<and>
        length (heap s') = Suc (length (heap (init_state cfg))) \<and>
        current s' = length (heap (init_state cfg)) \<and>
        current s' \<noteq> current (init_state cfg) \<and>
        pid (heap s' ! current s') = 0 \<and>
        pid (heap s' ! current (init_state cfg)) = 0 \<and>
        processes s' = current (init_state cfg) # processes (init_state cfg) \<and>
        s' \<noteq> init_state cfg"
proof (rule switch_to_own_pid_forks)
  show "shape cfg (init_state cfg)" "frames_ok cfg (init_state cfg)" "sched_ok (init_state cfg)"
    by code_simp+
  show "0 = pid (heap (init_state cfg) ! current (init_state cfg))"
    by (simp add: init_state_def)
  show "\<forall>a\<in>set (processes (init_state cfg)). pid (heap (init_state cfg) ! a) \<noteq> 0"
    by (simp add: init_state_def)
qed

text \<open>
  Claim C10 as stated fails. After \<^verbatim>\<open>switch_process(0)\<close> in the initial state the
  current process has pid 0 and the previous process, also with pid 0, is on the ready
  list. A second \<^verbatim>\<open>switch_process(0)\<close> finds that process and switches to it: no process
  is created.
\<close>

theorem own_pid_switch_without_fork:
  "run cfg zero_junk [Switch 0] (init_state cfg) = Inr ex_self \<and>
   pid (heap ex_self ! current ex_self) = 0 \<and>
   length (heap ex_self) = 2 \<and>
   switch_process cfg zero_junk 0 ex_self = Inr (ex_self\<lparr>processes := [1], current := 0, ptbr := Some 0\<rparr>)"
  by code_simp

text \<open>
  Claim C1 as stated fails. After \<^verbatim>\<open>alloc_page(0, 3)\<close> in the initial state the
  invariant holds. A second \<^verbatim>\<open>alloc_page(0, 3)\<close> maps page 0 to frame 1 and leaves the
  counter of frame 0 at 1, although no entry maps frame 0 any more.
\<close>

theorem alloc_page_on_mapped_page_leaks:
  "run cfg zero_junk [Alloc 0 3] (init_state cfg) = Inr ex_alloc \<and>
   vm_inv cfg ex_alloc \<and>
   alloc_page cfg zero_junk 0 3 ex_alloc = Inr (1, ex_leak) \<and>
   mapcounts ex_leak ! 0 = 1 \<and> refs ex_leak 0 = 0 \<and> \<not> conserved cfg ex_leak"
  by code_simp

end
